theory Spec2Isabelle
  imports Main "HOL-Library.AList"
begin

section \<open>Basic Context Menu (contextmenu.js): values and objects\<close>

text \<open>
  The library is one closure over a handful of module variables (\<open>conf\<close>,
  \<open>isOpen\<close>, \<open>target\<close>) and the DOM. Objects are shared by reference in
  JavaScript, and several properties of the library depend on which objects are shared,
  so objects live in an explicit store, addressed by natural numbers.
  Pixel coordinates are modelled as integers.
\<close>

type_synonym addr = nat
type_synonym elem = nat
type_synonym node = nat

text \<open>
  Function values: a function supplied by the caller, the \<open>function() {}\<close> of
  \<open>itemDefaults\<close> in \<open>normalizeMenu\<close>, and the module's default
  \<open>onSelect\<close>.
\<close>

datatype fn = UserFn nat | ItemNoop | DefaultOnSelect

datatype jsval =
    VUndef
  | VNull
  | VBool bool
  | VNum int
  | VStr string
  | VFun fn
  | VObj addr

text \<open>An object is its list of own enumerable properties, in enumeration order.\<close>

type_synonym props = "(string \<times> jsval) list"
type_synonym heap = "addr \<Rightarrow> props option"

datatype error = TypeError

fun truthy :: "jsval \<Rightarrow> bool" where
  "truthy VUndef = False"
| "truthy VNull = False"
| "truthy (VBool b) = b"
| "truthy (VNum n) = (n \<noteq> 0)"
| "truthy (VStr s) = (s \<noteq> [])"
| "truthy (VFun f) = True"
| "truthy (VObj a) = True"

definition props_of :: "heap \<Rightarrow> addr \<Rightarrow> props" where
  "props_of h a = (case h a of Some ps \<Rightarrow> ps | None \<Rightarrow> [])"

text \<open>\<open>obj[key]\<close> as a read: \<open>undefined\<close> when the key is absent.\<close>

definition get_prop :: "props \<Rightarrow> string \<Rightarrow> jsval" where
  "get_prop ps k = (case map_of ps k of Some v \<Rightarrow> v | None \<Rightarrow> VUndef)"

definition hasOwnProperty :: "props \<Rightarrow> string \<Rightarrow> bool" where
  "hasOwnProperty ps k = (map_of ps k \<noteq> None)"

section \<open>The placement engine: \<open>positionContextMenu\<close>\<close>

text \<open>
  A \<open>DOMRect\<close> as returned by \<open>getBoundingClientRect\<close>; \<open>bottom\<close> is
  \<open>top + height\<close>.
\<close>

record box =
  box_left :: int
  box_top :: int
  box_width :: int
  box_height :: int

definition box_bottom :: "box \<Rightarrow> int" where
  "box_bottom b = box_top b + box_height b"

record event =
  ev_target :: elem
  clientX :: int
  clientY :: int

text \<open>
  The object stored in an element's \<open>ctxMenu\<close> property: the keys of \<open>conf\<close>
  and \<open>menu\<close>, the address of the element's menu object.
\<close>

record config =
  cfg_menu :: addr
  cfg_event :: string
  cfg_position :: string
  cfg_horizontalOffset :: int
  cfg_verticalOffset :: int
  cfg_data :: jsval

text \<open>
  Lines 319-346: the position before the off-screen checks. The default
  \<open>"click"\<close> replaces a falsy (empty) \<open>position\<close>; any name other than the four
  anchors takes the last branch.
\<close>

definition anchor_position :: "event \<Rightarrow> config \<Rightarrow> box \<Rightarrow> box \<Rightarrow> int \<times> int" where
  "anchor_position e c targetBox menuBox =
     (let position = (if cfg_position c \<noteq> [] then cfg_position c else ''click'') in
      if position = ''bottom'' then
        (box_left targetBox + cfg_horizontalOffset c, box_bottom targetBox + cfg_verticalOffset c)
      else if position = ''top'' then
        (box_left targetBox + cfg_horizontalOffset c,
         box_top targetBox - box_height menuBox + cfg_verticalOffset c)
      else if position = ''right'' then
        (box_left targetBox + box_width targetBox + cfg_horizontalOffset c,
         box_top targetBox + cfg_verticalOffset c)
      else if position = ''left'' then
        (box_left targetBox - box_width menuBox + cfg_horizontalOffset c,
         box_top targetBox + cfg_verticalOffset c)
      else
        (clientX e + cfg_horizontalOffset c, clientY e + cfg_verticalOffset c))"

text \<open>
  Lines 348-384: the four checks, in the source's order (left, up, right, bottom), each
  reading the coordinate the earlier ones left. \<open>clientWidth\<close> and
  \<open>clientHeight\<close> are those of \<open>document.body\<close>.
\<close>

definition offscreen_check :: "config \<Rightarrow> box \<Rightarrow> int \<Rightarrow> int \<Rightarrow> int \<times> int \<Rightarrow> int \<times> int" where
  "offscreen_check c menuBox clientWidth clientHeight p =
     (let left0 = fst p; top0 = snd p;
          left1 = (if left0 < 0
                   then (if cfg_horizontalOffset c \<ge> 0 then cfg_horizontalOffset c else 0)
                   else left0);
          top1 = (if top0 < 0
                  then (if cfg_verticalOffset c \<ge> 0 then cfg_verticalOffset c else 0)
                  else top0);
          left2 = (if left1 + box_width menuBox > clientWidth
                   then (if cfg_horizontalOffset c \<ge> 0
                         then clientWidth - box_width menuBox
                         else clientWidth - box_width menuBox + cfg_horizontalOffset c)
                   else left1);
          top2 = (if top1 + box_height menuBox > clientHeight
                  then (if cfg_verticalOffset c \<ge> 0
                        then clientHeight - box_height menuBox
                        else clientHeight - box_height menuBox + cfg_verticalOffset c)
                  else top1)
      in (left2, top2))"

text \<open>The pair \<open>(left, top)\<close> that lines 387-388 write into the menu's style.\<close>

definition menu_position :: "event \<Rightarrow> config \<Rightarrow> box \<Rightarrow> box \<Rightarrow> int \<Rightarrow> int \<Rightarrow> int \<times> int" where
  "menu_position e c targetBox menuBox clientWidth clientHeight =
     offscreen_check c menuBox clientWidth clientHeight (anchor_position e c targetBox menuBox)"

section \<open>\<open>extend\<close> and \<open>normalizeMenu\<close>\<close>

text \<open>
  \<open>for (var key in source)\<close>: the own enumerable properties of a value. An object
  gives its properties, a string primitive its characters under the indices
  \<open>"0"\<close>, \<open>"1"\<close>, ...; numbers, booleans, functions, \<open>null\<close> and
  \<open>undefined\<close> give none.
\<close>

fun string_of_nat :: "nat \<Rightarrow> string" where
  "string_of_nat n =
     (if n < 10 then [char_of (48 + n)]
      else string_of_nat (n div 10) @ [char_of (48 + n mod 10)])"

declare string_of_nat.simps [simp del]

definition string_props :: "string \<Rightarrow> props" where
  "string_props s = map (\<lambda>i. (string_of_nat i, VStr [s ! i])) [0..<length s]"

definition own_props :: "heap \<Rightarrow> jsval \<Rightarrow> props" where
  "own_props h v =
     (case v of VObj a \<Rightarrow> props_of h a | VStr s \<Rightarrow> string_props s | _ \<Rightarrow> [])"

text \<open>
  \<open>extend(obj, source)\<close>, lines 157-172, on property lists:
  \<open>obj[key] = source[key]\<close> for every key of the source. An assignment keeps the
  place of a key the object has and appends a new one (\<open>AList.update\<close>).
\<close>

definition extend_props :: "props \<Rightarrow> props \<Rightarrow> props" where
  "extend_props obj source =
     fold (\<lambda>key acc. AList.update key (get_prop source key) acc) (map fst source) obj"

text \<open>
  \<open>isFunction\<close>, lines 132-134: duck typing on \<open>constructor\<close>, \<open>call\<close>
  and \<open>apply\<close>. A plain object inherits a truthy \<open>constructor\<close> and has
  \<open>call\<close> and \<open>apply\<close> only as own properties.
\<close>

definition isFunction :: "heap \<Rightarrow> jsval \<Rightarrow> bool" where
  "isFunction h obj =
     (case obj of
        VFun f \<Rightarrow> True
      | VObj a \<Rightarrow>
          (case map_of (props_of h a) ''constructor'' of None \<Rightarrow> True | Some c \<Rightarrow> truthy c)
          \<and> truthy (get_prop (props_of h a) ''call'')
          \<and> truthy (get_prop (props_of h a) ''apply'')
      | _ \<Rightarrow> False)"

definition itemDefaults :: props where
  "itemDefaults =
     [(''type'', VStr ''item''),
      (''enabled'', VBool True),
      (''label'', VStr []),
      (''onSelect'', VFun ItemNoop),
      (''icon'', VStr []),
      (''title'', VStr [])]"

text \<open>
  The body of the loop of \<open>normalizeMenu\<close>, lines 468-482: the properties of the
  fresh object \<open>dflt\<close> after the branch taken for the entry \<open>menu[idx]\<close>.
\<close>

definition normalize_item :: "heap \<Rightarrow> string \<Rightarrow> jsval \<Rightarrow> props" where
  "normalize_item h idx entry =
     (let dflt = extend_props [] itemDefaults in
      if \<not> truthy entry then extend_props dflt [(''label'', VStr idx)]
      else if isFunction h entry then
        extend_props dflt [(''label'', VStr idx), (''onSelect'', entry)]
      else extend_props dflt (own_props h entry))"

text \<open>
  \<open>for (idx in menu)\<close>, lines 467-483. Each round allocates \<open>dflt\<close> at the next
  free address and stores the reference in \<open>menu[idx]\<close>: the menu object itself is
  updated in place.
\<close>

definition normalize_round :: "addr \<Rightarrow> string \<Rightarrow> heap \<times> addr \<Rightarrow> heap \<times> addr" where
  "normalize_round menu idx hn =
     (let h = fst hn; n = snd hn;
          item = normalize_item h idx (get_prop (props_of h menu) idx);
          h1 = h(n \<mapsto> item)
      in (h1(menu \<mapsto> AList.update idx (VObj n) (props_of h1 menu)), Suc n))"

definition normalize_loop :: "addr \<Rightarrow> string list \<Rightarrow> heap \<times> addr \<Rightarrow> heap \<times> addr" where
  "normalize_loop menu keys hn = fold (normalize_round menu) keys hn"

definition normalizeMenu :: "addr \<Rightarrow> heap \<times> addr \<Rightarrow> heap \<times> addr" where
  "normalizeMenu menu hn = normalize_loop menu (map fst (props_of (fst hn) menu)) hn"

text \<open>\<open>extend({}, menu)\<close>: a new object with the menu's entries, one level deep.\<close>

definition copy_object :: "addr \<Rightarrow> heap \<times> addr \<Rightarrow> heap \<times> addr" where
  "copy_object a hn =
     ((fst hn)(snd hn \<mapsto> extend_props [] (props_of (fst hn) a)), Suc (snd hn))"

section \<open>Configuration objects\<close>

text \<open>
  The \<open>options\<close> argument of \<open>attach\<close> and \<open>display\<close>: the documented keys,
  each present or absent. An omitted argument is the record of absent keys.
\<close>

record options =
  opt_event :: "string option"
  opt_position :: "string option"
  opt_horizontalOffset :: "int option"
  opt_verticalOffset :: "int option"
  opt_data :: "jsval option"

definition no_options :: options where
  "no_options = \<lparr>opt_event = None, opt_position = None, opt_horizontalOffset = None,
     opt_verticalOffset = None, opt_data = None\<rparr>"

text \<open>
  \<open>conf\<close>, lines 78-84. Its \<open>data: {}\<close> is one object for the whole module; it
  lives at address 0.
\<close>

definition conf_data :: addr where
  "conf_data = 0"

definition conf :: options where
  "conf = \<lparr>opt_event = Some ''click'', opt_position = Some ''bottom'',
     opt_horizontalOffset = Some 0, opt_verticalOffset = Some 0,
     opt_data = Some (VObj conf_data)\<rparr>"

definition extend_config :: "config \<Rightarrow> options \<Rightarrow> config" where
  "extend_config obj source =
     obj\<lparr>cfg_event := (case opt_event source of Some v \<Rightarrow> v | None \<Rightarrow> cfg_event obj),
         cfg_position := (case opt_position source of Some v \<Rightarrow> v | None \<Rightarrow> cfg_position obj),
         cfg_horizontalOffset :=
           (case opt_horizontalOffset source of Some v \<Rightarrow> v | None \<Rightarrow> cfg_horizontalOffset obj),
         cfg_verticalOffset :=
           (case opt_verticalOffset source of Some v \<Rightarrow> v | None \<Rightarrow> cfg_verticalOffset obj),
         cfg_data := (case opt_data source of Some v \<Rightarrow> v | None \<Rightarrow> cfg_data obj)\<rparr>"

text \<open>
  \<open>extend({menu: m}, conf, options)\<close>, lines 510-512 and 551-553. The literal has
  only the key \<open>menu\<close>; \<open>conf\<close> assigns every other key before anything reads it.
\<close>

definition make_config :: "addr \<Rightarrow> options \<Rightarrow> config" where
  "make_config m opts =
     extend_config
       (extend_config
          \<lparr>cfg_menu = m, cfg_event = [], cfg_position = [], cfg_horizontalOffset = 0,
           cfg_verticalOffset = 0, cfg_data = VUndef\<rparr> conf) opts"

section \<open>The document and the module state\<close>

text \<open>
  A row built by \<open>createContextMenu\<close>: the \<open>div\<close>, its \<open>ctxMenu\<close> object
  (\<open>key\<close>, \<open>enabled\<close>, \<open>onSelect\<close>), and whether the click listener of lines
  288-291 was added to it.
\<close>

record item_node =
  item_id :: node
  item_key :: string
  item_enabled :: bool
  item_className :: string
  item_innerHTML :: jsval
  item_onSelect :: "jsval option"
  item_click :: bool
  item_title :: "jsval option"

text \<open>
  A menu container. The click listeners of its rows are closures of one call of
  \<open>createContextMenu\<close>: they share its parameter \<open>target\<close> and its variable
  \<open>item\<close>. The latter is declared with \<open>var\<close>, so the call has one variable
  \<open>item\<close>, not one per round of the loop, and a listener that runs later reads the
  value the last round left in it.
\<close>

record menu_node =
  menu_className :: string
  menu_visibility :: string
  menu_display :: string
  menu_left :: "int option"
  menu_top :: "int option"
  menu_items :: "item_node list"
  closure_target :: elem
  closure_item :: "node option"

text \<open>One call of an \<open>onSelect\<close> function, with its four arguments.\<close>

record call =
  call_fn :: fn
  call_target :: elem
  call_key :: string
  call_item :: node
  call_data :: jsval

text \<open>
  The state: the object store (\<open>objs\<close> for menus and item records, \<open>configs\<close>
  for the objects stored in \<open>ctxMenu\<close>), the \<open>ctxMenu\<close> property and the
  trigger listeners of the page's elements, the module variables \<open>isOpen\<close> and
  \<open>target\<close>, every container built so far (\<open>nodes\<close>), the live collection
  \<open>document.getElementsByClassName("context-menu")\<close> in document order
  (\<open>document\<close>), the events of \<open>window\<close> on which \<open>closeContextMenu\<close>
  is registered, the pending \<open>setTimeout\<close> callbacks, the log of callback
  invocations, and what the host's layout reports. Functions supplied by the caller
  are opaque: calling one is recorded and changes nothing else.
\<close>

record state =
  objs :: heap
  configs :: "addr \<Rightarrow> config option"
  next_addr :: addr
  ctxMenu :: "elem \<Rightarrow> addr option"
  bound :: "(elem \<times> string) set"
  isOpen :: bool
  target_var :: "elem option"
  nodes :: "node \<Rightarrow> menu_node option"
  next_node :: node
  document :: "node list"
  window_listeners :: "string set"
  timers :: "(event \<times> node) list"
  calls :: "call list"
  layout :: "elem \<Rightarrow> box"
  menu_layout :: "node \<Rightarrow> box"
  clientWidth :: int
  clientHeight :: int
  querySelectorAll :: "string \<Rightarrow> elem list"

text \<open>An exception leaves the state as it was when it was thrown.\<close>

datatype outcome = Done state | Thrown error state

fun state_of :: "outcome \<Rightarrow> state" where
  "state_of (Done s) = s"
| "state_of (Thrown err s) = s"

fun thrown :: "outcome \<Rightarrow> bool" where
  "thrown (Done s) = False"
| "thrown (Thrown err s) = True"

definition menuClassName :: string where
  "menuClassName = ''context-menu''"

definition itemClassName :: string where
  "itemClassName = ''context-menu-item''"

definition itemClassNameDisabled :: string where
  "itemClassNameDisabled = ''context-menu-item-disabled''"

section \<open>\<open>closeContextMenu\<close>\<close>

text \<open>
  The loop of lines 419-421 runs over a live collection: removing
  \<open>elements[idx]\<close> from the document removes it from \<open>elements\<close> as well, and
  \<open>idx\<close> still advances.
\<close>

function sweep :: "nat \<Rightarrow> node list \<Rightarrow> node list" where
  "sweep idx elements =
     (if idx < length elements
      then sweep (Suc idx) (take idx elements @ drop (Suc idx) elements)
      else elements)"
  by pat_completeness auto
termination
  by (relation "measure (\<lambda>(idx, elements). length elements - idx)") auto

declare sweep.simps [simp del]

definition closeContextMenu :: "state \<Rightarrow> state" where
  "closeContextMenu s =
     s\<lparr>window_listeners := window_listeners s - {''click'', ''resize'', ''scroll''},
       document := sweep 0 (document s),
       isOpen := False\<rparr>"

section \<open>\<open>createContextMenu\<close>\<close>

text \<open>\<open>value.key\<close> for a value that is neither \<open>null\<close> nor \<open>undefined\<close>.\<close>

definition member :: "heap \<Rightarrow> jsval \<Rightarrow> string \<Rightarrow> jsval" where
  "member h v k = (case v of VObj a \<Rightarrow> get_prop (props_of h a) k | _ \<Rightarrow> VUndef)"

text \<open>
  One round of the loop, lines 265-298, building the row with identity \<open>n\<close>.
  \<open>value.enabled\<close> throws for \<open>null\<close> and \<open>undefined\<close>.
\<close>

definition create_item :: "heap \<Rightarrow> node \<Rightarrow> string \<Rightarrow> jsval \<Rightarrow> error + item_node" where
  "create_item h n key v =
     (if v = VUndef \<or> v = VNull then Inl TypeError
      else
        let enabled = truthy (member h v ''enabled'') in
        Inr \<lparr>item_id = n,
             item_key = key,
             item_enabled = enabled,
             item_className = (if enabled then itemClassName else itemClassNameDisabled),
             item_innerHTML =
               (if truthy v \<and> truthy (member h v ''label'') then member h v ''label''
                else VStr key),
             item_onSelect =
               (if enabled
                then Some (if isFunction h (member h v ''onSelect'')
                           then member h v ''onSelect'' else VFun DefaultOnSelect)
                else None),
             item_click = enabled,
             item_title =
               (if truthy (member h v ''title'') then Some (member h v ''title'') else None)\<rparr>)"

fun create_items :: "heap \<Rightarrow> props \<Rightarrow> string list \<Rightarrow> node \<Rightarrow> error + item_node list" where
  "create_items h menu [] n = Inr []"
| "create_items h menu (key # rest) n =
     (case create_item h n key (get_prop menu key) of
        Inl err \<Rightarrow> Inl err
      | Inr item \<Rightarrow>
          (case create_items h menu rest (Suc n) of
             Inl err \<Rightarrow> Inl err
           | Inr items \<Rightarrow> Inr (item # items)))"

text \<open>
  \<open>createContextMenu(target)\<close>, lines 254-302: the new container's identity and the
  state that holds it. Nothing is inserted into the document here.
\<close>

definition createContextMenu :: "elem \<Rightarrow> state \<Rightarrow> error + (node \<times> state)" where
  "createContextMenu tgt s =
     (case ctxMenu s tgt of
        None \<Rightarrow> Inl TypeError
      | Some a \<Rightarrow>
          (case configs s a of
             None \<Rightarrow> Inl TypeError
           | Some c \<Rightarrow>
               (let menu = props_of (objs s) (cfg_menu c);
                    contextMenu = next_node s
                in case create_items (objs s) menu (map fst menu) (Suc contextMenu) of
                     Inl err \<Rightarrow> Inl err
                   | Inr items \<Rightarrow>
                       Inr (contextMenu,
                            s\<lparr>nodes := (nodes s)(contextMenu \<mapsto>
                                 \<lparr>menu_className = menuClassName,
                                  menu_visibility = ''hidden'',
                                  menu_display = ''inline-block'',
                                  menu_left = None,
                                  menu_top = None,
                                  menu_items = items,
                                  closure_target = tgt,
                                  closure_item =
                                    (if items = [] then None else Some (item_id (last items)))\<rparr>),
                              next_node := Suc contextMenu + length items\<rparr>))))"

section \<open>\<open>positionContextMenu\<close> and \<open>onContextMenu\<close>\<close>

definition positionContextMenu :: "event \<Rightarrow> elem \<Rightarrow> node \<Rightarrow> state \<Rightarrow> outcome" where
  "positionContextMenu e tgt menu s =
     (case ctxMenu s tgt of
        None \<Rightarrow> Thrown TypeError s
      | Some a \<Rightarrow>
          (case configs s a of
             None \<Rightarrow> Thrown TypeError s
           | Some c \<Rightarrow>
               (let p = menu_position e c (layout s tgt) (menu_layout s menu)
                          (clientWidth s) (clientHeight s)
                in Done (s\<lparr>nodes := (nodes s)(menu :=
                     map_option (\<lambda>m. m\<lparr>menu_left := Some (fst p), menu_top := Some (snd p)\<rparr>)
                       (nodes s menu))\<rparr>))))"

text \<open>
  The callback given to \<open>setTimeout\<close>, lines 233-242. Its \<open>target\<close> is the
  module variable, read when the callback runs.
\<close>

definition timer_callback :: "event \<Rightarrow> node \<Rightarrow> state \<Rightarrow> outcome" where
  "timer_callback e menu s =
     (let s1 = s\<lparr>window_listeners :=
                   window_listeners s \<union> {''click'', ''resize'', ''scroll''}\<rparr>;
          s2 = s1\<lparr>nodes := (nodes s1)(menu :=
                   map_option (\<lambda>m. m\<lparr>menu_visibility := ''visible''\<rparr>) (nodes s1 menu))\<rparr>
      in case target_var s2 of
           None \<Rightarrow> Thrown TypeError s2
         | Some tgt \<Rightarrow> positionContextMenu e tgt menu s2)"

definition onContextMenu :: "event \<Rightarrow> state \<Rightarrow> outcome" where
  "onContextMenu e s =
     (let s1 = closeContextMenu (s\<lparr>target_var := Some (ev_target e)\<rparr>) in
      case ctxMenu s1 (ev_target e) of
        None \<Rightarrow> Done s1
      | Some a \<Rightarrow>
          (case createContextMenu (ev_target e) s1 of
             Inl err \<Rightarrow> Thrown err s1
           | Inr (menu, s2) \<Rightarrow>
               Done (s2\<lparr>document := document s2 @ [menu],
                        isOpen := True,
                        timers := timers s2 @ [(e, menu)]\<rparr>)))"

text \<open>The host runs the oldest pending timer.\<close>

definition tick :: "state \<Rightarrow> outcome" where
  "tick s =
     (case timers s of
        [] \<Rightarrow> Done s
      | (e, menu) # rest \<Rightarrow> timer_callback e menu (s\<lparr>timers := rest\<rparr>))"

text \<open>A \<open>click\<close>, \<open>resize\<close> or \<open>scroll\<close> event reaching \<open>window\<close>.\<close>

definition window_event :: "string \<Rightarrow> state \<Rightarrow> state" where
  "window_event name s = (if name \<in> window_listeners s then closeContextMenu s else s)"

text \<open>
  The click listener of a row, lines 288-291, \<open>this\<close> being the row the event is
  dispatched to and \<open>menu\<close> the container whose construction made the closure.
\<close>

definition item_listener :: "node \<Rightarrow> item_node \<Rightarrow> state \<Rightarrow> outcome" where
  "item_listener menu this s =
     (case nodes s menu of
        None \<Rightarrow> Done s
      | Some m \<Rightarrow>
          (case ctxMenu s (closure_target m) of
             None \<Rightarrow> Thrown TypeError s
           | Some a \<Rightarrow>
               (case configs s a of
                  None \<Rightarrow> Thrown TypeError s
                | Some c \<Rightarrow>
                    (case (item_onSelect this, closure_item m) of
                       (Some (VFun f), Some item) \<Rightarrow>
                         Done (closeContextMenu
                           (s\<lparr>calls := calls s @
                               [\<lparr>call_fn = f, call_target = closure_target m,
                                 call_key = item_key this, call_item = item,
                                 call_data = cfg_data c\<rparr>]\<rparr>))
                     | _ \<Rightarrow> Thrown TypeError s))))"

text \<open>
  The user clicks the row \<open>row\<close> of the container \<open>menu\<close>, which is in the
  document. The row's listener runs if it has one; the event then bubbles to
  \<open>window\<close>, also when the listener threw.
\<close>

definition click_row :: "node \<Rightarrow> node \<Rightarrow> state \<Rightarrow> outcome" where
  "click_row menu row s =
     (if menu \<in> set (document s) then
        (case nodes s menu of
           None \<Rightarrow> Done s
         | Some m \<Rightarrow>
             (case find (\<lambda>i. item_id i = row) (menu_items m) of
                None \<Rightarrow> Done s
              | Some this \<Rightarrow>
                  (if item_click this then
                     (case item_listener menu this s of
                        Done s1 \<Rightarrow> Done (window_event ''click'' s1)
                      | Thrown err s1 \<Rightarrow> Thrown err (window_event ''click'' s1))
                   else Done (window_event ''click'' s))))
      else Done s)"

section \<open>The public API\<close>

text \<open>
  What a selector can be, lines 184-204: a jQuery object, an element, a string, a
  \<open>NodeList\<close>, or anything else.
\<close>

datatype selector =
    SelJQuery "elem list"
  | SelElement elem
  | SelString string
  | SelNodeList "elem list"
  | SelOther

fun getElements :: "state \<Rightarrow> selector \<Rightarrow> elem list" where
  "getElements s (SelJQuery els) = els"
| "getElements s (SelElement el) = [el]"
| "getElements s (SelString str) = querySelectorAll s str"
| "getElements s (SelNodeList els) = els"
| "getElements s SelOther = []"

text \<open>
  \<open>setEnabledState\<close>, lines 433-445. \<open>elements[idx].ctxMenu.menu\<close> throws for
  an element without \<open>ctxMenu\<close>; the assignment to \<open>enabled\<close> throws for an
  entry that is \<open>null\<close>, \<open>undefined\<close> or (the file is in strict mode) another
  primitive. A property assigned to a function value is not part of this model.
\<close>

fun setEnabled_loop :: "elem list \<Rightarrow> string \<Rightarrow> bool \<Rightarrow> state \<Rightarrow> outcome" where
  "setEnabled_loop [] key enabled s = Done s"
| "setEnabled_loop (el # rest) key enabled s =
     (case ctxMenu s el of
        None \<Rightarrow> Thrown TypeError s
      | Some a \<Rightarrow>
          (case configs s a of
             None \<Rightarrow> Thrown TypeError s
           | Some c \<Rightarrow>
               (if hasOwnProperty (props_of (objs s) (cfg_menu c)) key then
                  (case get_prop (props_of (objs s) (cfg_menu c)) key of
                     VObj i \<Rightarrow>
                       setEnabled_loop rest key enabled
                         (s\<lparr>objs := (objs s)(i \<mapsto>
                             AList.update ''enabled'' (VBool enabled) (props_of (objs s) i))\<rparr>)
                   | VFun f \<Rightarrow> setEnabled_loop rest key enabled s
                   | _ \<Rightarrow> Thrown TypeError s)
                else setEnabled_loop rest key enabled s)))"

definition setEnabledState :: "selector \<Rightarrow> string \<Rightarrow> bool \<Rightarrow> state \<Rightarrow> outcome" where
  "setEnabledState sel key enabled s = setEnabled_loop (getElements s sel) key enabled s"

definition disable :: "selector \<Rightarrow> string \<Rightarrow> state \<Rightarrow> outcome" where
  "disable sel key s = setEnabledState sel key False s"

definition enable :: "selector \<Rightarrow> string \<Rightarrow> state \<Rightarrow> outcome" where
  "enable sel key s = setEnabledState sel key True s"

text \<open>
  \<open>attach\<close>, lines 503-522. \<open>normalizeMenu(menu)\<close> works on the caller's object;
  \<open>obj\<close> is built once, before the loop, and the loop stores that one reference in
  every element.
\<close>

definition attach :: "selector \<Rightarrow> addr \<Rightarrow> options \<Rightarrow> state \<Rightarrow> state" where
  "attach sel menu opts s =
     (let hn1 = normalizeMenu menu (objs s, next_addr s);
          hn2 = copy_object menu hn1;
          obj = snd hn2;
          c = make_config (snd hn1) opts;
          s1 = s\<lparr>objs := fst hn2, configs := (configs s)(obj \<mapsto> c), next_addr := Suc obj\<rparr>
      in fold (\<lambda>el st. st\<lparr>ctxMenu := (ctxMenu st)(el \<mapsto> obj),
                            bound := insert (el, cfg_event c) (bound st)\<rparr>)
           (getElements s sel) s1)"

text \<open>
  \<open>display\<close>, lines 546-578. Here \<open>normalizeMenu\<close> works on
  \<open>extend({}, menu)\<close>, a copy of the caller's object. The first argument is an
  event (a DOM or a jQuery event), an element, or something else, which is logged.
\<close>

datatype display_arg = ArgEvent event | ArgElement elem | ArgOther

definition display :: "display_arg \<Rightarrow> addr \<Rightarrow> options \<Rightarrow> state \<Rightarrow> outcome" where
  "display e menu opts s =
     (let hn0 = copy_object menu (objs s, next_addr s);
          hn1 = normalizeMenu (next_addr s) hn0;
          hn2 = copy_object (next_addr s) hn1;
          contextMenu = snd hn2;
          c = make_config (snd hn1) opts;
          s1 = s\<lparr>objs := fst hn2, configs := (configs s)(contextMenu \<mapsto> c),
                 next_addr := Suc contextMenu\<rparr>
      in case e of
           ArgEvent ev \<Rightarrow>
             onContextMenu ev (s1\<lparr>ctxMenu := (ctxMenu s1)(ev_target ev \<mapsto> contextMenu)\<rparr>)
         | ArgElement el \<Rightarrow>
             (let b = layout s1 el;
                  evt = \<lparr>ev_target = el, clientX = box_left b, clientY = box_top b\<rparr>
              in onContextMenu evt (s1\<lparr>ctxMenu := (ctxMenu s1)(el \<mapsto> contextMenu)\<rparr>))
         | ArgOther \<Rightarrow> Done s1)"

definition close :: "state \<Rightarrow> state" where
  "close s = closeContextMenu s"

section \<open>Runs of the library\<close>

text \<open>
  What can happen to the state: a call of the API, the host delivering an event to a
  trigger listener, to a row or to \<open>window\<close>, the host running a timer, and the
  caller creating an object.
\<close>

datatype action =
    Attach selector addr options
  | Display display_arg addr options
  | Enable selector string
  | Disable selector string
  | Close
  | Trigger event
  | Tick
  | ClickRow node node
  | WindowEvent string
  | NewObject props

fun perform :: "action \<Rightarrow> state \<Rightarrow> outcome" where
  "perform (Attach sel menu opts) s = Done (attach sel menu opts s)"
| "perform (Display e menu opts) s = display e menu opts s"
| "perform (Enable sel key) s = enable sel key s"
| "perform (Disable sel key) s = disable sel key s"
| "perform Close s = Done (close s)"
| "perform (Trigger e) s = onContextMenu e s"
| "perform Tick s = tick s"
| "perform (ClickRow menu row) s = click_row menu row s"
| "perform (WindowEvent name) s = Done (window_event name s)"
| "perform (NewObject ps) s =
     Done (s\<lparr>objs := (objs s)(next_addr s \<mapsto> ps), next_addr := Suc (next_addr s)\<rparr>)"

text \<open>
  The library has just been loaded: nothing is attached, no menu is open, no element of
  the page has the class \<open>context-menu\<close>. The store holds \<open>conf.data\<close> and
  whatever objects the page has made, all below \<open>next_addr\<close>.
\<close>

definition initial :: "state \<Rightarrow> bool" where
  "initial s =
     (configs s = Map.empty \<and> ctxMenu s = Map.empty \<and> bound s = {} \<and> \<not> isOpen s \<and>
      target_var s = None \<and> nodes s = Map.empty \<and> document s = [] \<and>
      window_listeners s = {} \<and> timers s = [] \<and> calls s = [] \<and>
      objs s conf_data = Some [] \<and> dom (objs s) \<subseteq> {..< next_addr s})"

inductive reachable :: "state \<Rightarrow> bool" where
  reachable_initial: "initial s \<Longrightarrow> reachable s"
| reachable_step: "reachable s \<Longrightarrow> reachable (state_of (perform a s))"

fun run :: "action list \<Rightarrow> state \<Rightarrow> state" where
  "run [] s = s"
| "run (a # as) s = run as (state_of (perform a s))"

text \<open>\<open>element.ctxMenu.menu[key].enabled\<close>, read without side effect.\<close>

definition enabled_of :: "state \<Rightarrow> elem \<Rightarrow> string \<Rightarrow> jsval" where
  "enabled_of s el key =
     (case ctxMenu s el of
        None \<Rightarrow> VUndef
      | Some a \<Rightarrow>
          (case configs s a of
             None \<Rightarrow> VUndef
           | Some c \<Rightarrow>
               member (objs s) (get_prop (props_of (objs s) (cfg_menu c)) key) ''enabled''))"

text \<open>The row nodes of a container and what its style says about its position.\<close>

definition row_ids :: "state \<Rightarrow> node \<Rightarrow> node list" where
  "row_ids s menu = (case nodes s menu of None \<Rightarrow> [] | Some m \<Rightarrow> map item_id (menu_items m))"

definition style_position :: "state \<Rightarrow> node \<Rightarrow> (int option \<times> int option) option" where
  "style_position s menu = map_option (\<lambda>m. (menu_left m, menu_top m)) (nodes s menu)"

subsection \<open>A page for the examples\<close>

text \<open>
  A freshly loaded page whose script has made three objects: the menu
  \<open>{New: f0, Open: f1}\<close> at address 1, the record \<open>{title: "Open a file"}\<close> at
  address 2 and the menu \<open>{Open: (the record), Sep: null}\<close> at address 3. Every
  element reports the box \<open>{left: 100, top: 50, width: 80, height: 20}\<close>, every menu
  measures 60 x 40, and the body is 1000 x 800.
\<close>

definition example_page :: state where
  "example_page =
     \<lparr>objs = [0 \<mapsto> [],
              1 \<mapsto> [(''New'', VFun (UserFn 0)), (''Open'', VFun (UserFn 1))],
              2 \<mapsto> [(''title'', VStr ''Open a file'')],
              3 \<mapsto> [(''Open'', VObj 2), (''Sep'', VNull)]],
      configs = Map.empty, next_addr = 4, ctxMenu = Map.empty, bound = {}, isOpen = False,
      target_var = None, nodes = Map.empty, next_node = 0, document = [],
      window_listeners = {}, timers = [], calls = [],
      layout = (\<lambda>el. \<lparr>box_left = 100, box_top = 50, box_width = 80, box_height = 20\<rparr>),
      menu_layout = (\<lambda>n. \<lparr>box_left = 0, box_top = 0, box_width = 60, box_height = 40\<rparr>),
      clientWidth = 1000, clientHeight = 800, querySelectorAll = (\<lambda>str. [])\<rparr>"

definition example_click :: event where
  "example_click = \<lparr>ev_target = 10, clientX = 120, clientY = 55\<rparr>"

section \<open>Invariants of the runs\<close>

text \<open>
  What every reachable state satisfies. On the side of the document: at most one
  container, \<open>isOpen\<close> exactly when there is one, containers older than
  \<open>next_node\<close>, and no listener on \<open>window\<close> but the three of the timer
  callback. On the side of the store: every object is below \<open>next_addr\<close>, every
  \<open>ctxMenu\<close> of an element is a configuration object, and no entry of a
  configuration's menu is \<open>null\<close> or \<open>undefined\<close>. \<open>same_store\<close> relates
  two states with the same store.
\<close>

definition ui_inv :: "state \<Rightarrow> bool" where
  "ui_inv s = (length (document s) \<le> 1 \<and> isOpen s = (document s \<noteq> []) \<and>
     list_all (\<lambda>n. n < next_node s) (document s) \<and>
     window_listeners s \<subseteq> {''click'', ''resize'', ''scroll''})"

definition entries_ok :: "heap \<Rightarrow> addr \<Rightarrow> addr \<Rightarrow> bool" where
  "entries_ok h n m =
     (\<forall>k \<in> fst ` set (props_of h m).
        get_prop (props_of h m) k \<noteq> VUndef \<and> get_prop (props_of h m) k \<noteq> VNull \<and>
        (\<forall>i. get_prop (props_of h m) k = VObj i \<longrightarrow> i < n))"

definition heap_inv :: "state \<Rightarrow> bool" where
  "heap_inv s =
     (dom (objs s) \<subseteq> {..< next_addr s} \<and>
      (\<forall>el a. ctxMenu s el = Some a \<longrightarrow> configs s a \<noteq> None) \<and>
      (\<forall>a c. configs s a = Some c \<longrightarrow>
         cfg_menu c < next_addr s \<and> entries_ok (objs s) (next_addr s) (cfg_menu c)))"

definition same_store :: "state \<Rightarrow> state \<Rightarrow> bool" where
  "same_store s s' = (objs s' = objs s \<and> configs s' = configs s \<and>
     next_addr s' = next_addr s \<and> ctxMenu s' = ctxMenu s)"

section \<open>Placement\<close>

text \<open>
  C4. In anchor mode \<open>bottom\<close> the position before the off-screen checks is
  \<open>left = targetLeft + horizontalOffset\<close>, \<open>top = targetBottom + verticalOffset\<close>.
  For the target box \<open>{left: 100, top: 50, width: 80, height: 20}\<close>, a 60 x 40 menu, zero
  offsets and a 1000 x 800 viewport the result is \<open>(100, 70)\<close>; for a target at
  \<open>left = 970\<close>, viewport width 1000, menu width 60 and zero offsets the final left
  coordinate is 940.
\<close>

theorem bottom_anchor_placement:
  "anchor_position e (c\<lparr>cfg_position := ''bottom''\<rparr>) targetBox menuBox =
     (box_left targetBox + cfg_horizontalOffset c, box_bottom targetBox + cfg_verticalOffset c) \<and>
   menu_position e
     (c\<lparr>cfg_position := ''bottom'', cfg_horizontalOffset := 0, cfg_verticalOffset := 0\<rparr>)
     \<lparr>box_left = 100, box_top = 50, box_width = 80, box_height = 20\<rparr>
     (menuBox\<lparr>box_width := 60, box_height := 40\<rparr>) 1000 800 = (100, 70) \<and>
   fst (menu_position e
     (c\<lparr>cfg_position := ''bottom'', cfg_horizontalOffset := 0, cfg_verticalOffset := 0\<rparr>)
     (targetBox\<lparr>box_left := 970\<rparr>) (menuBox\<lparr>box_width := 60\<rparr>) 1000 viewportHeight) = 940"
  by (simp add: anchor_position_def menu_position_def offscreen_check_def box_bottom_def Let_def)

text \<open>
  C5, as stated, fails. With a horizontal offset of -30, a menu 310 wide and a viewport
  320 wide, a target at \<open>left = 50\<close> in mode \<open>bottom\<close> gives the candidate 20; the
  check "too far to the right" fires and sets \<open>left = 320 - 310 + (-30) = -20\<close>, left of
  the viewport. With an offset of 50 in mode \<open>left\<close>, a target at \<open>left = 10\<close> and a
  menu 300 wide, the first check sets \<open>left = 50\<close> and the third then sets
  \<open>left = 320 - 300 = 20\<close>, less than the offset.
\<close>

theorem offset_insets_counterexample:
  "fst (menu_position \<lparr>ev_target = 0, clientX = 0, clientY = 0\<rparr>
     \<lparr>cfg_menu = 0, cfg_event = ''click'', cfg_position = ''bottom'',
      cfg_horizontalOffset = - 30, cfg_verticalOffset = 0, cfg_data = VUndef\<rparr>
     \<lparr>box_left = 50, box_top = 50, box_width = 80, box_height = 20\<rparr>
     \<lparr>box_left = 0, box_top = 0, box_width = 310, box_height = 40\<rparr> 320 800) = - 20 \<and>
   fst (menu_position \<lparr>ev_target = 0, clientX = 0, clientY = 0\<rparr>
     \<lparr>cfg_menu = 0, cfg_event = ''click'', cfg_position = ''left'',
      cfg_horizontalOffset = 50, cfg_verticalOffset = 0, cfg_data = VUndef\<rparr>
     \<lparr>box_left = 10, box_top = 50, box_width = 80, box_height = 20\<rparr>
     \<lparr>box_left = 0, box_top = 0, box_width = 300, box_height = 40\<rparr> 320 800) = 20"
  by (simp add: anchor_position_def menu_position_def offscreen_check_def box_bottom_def Let_def)

text \<open>
  C5, amended. Let \<open>(a, b)\<close> be the position before the checks and \<open>(l, t)\<close> the
  final one. When the candidate is off-screen on the leading side (\<open>a < 0\<close>) and the
  menu fits at the inset, the final coordinate is the offset if it is non-negative and 0 if
  it is negative. The final left is not below 0 whenever the menu, widened by the magnitude
  of a negative offset, is no wider than the viewport; likewise for the top. The trailing
  edges never pass the viewport's.
\<close>

theorem offscreen_check_insets:
  assumes "menu_position e c targetBox menuBox W H = (l, t)"
    and "anchor_position e c targetBox menuBox = (a, b)"
  shows "(a < 0 \<and> 0 \<le> cfg_horizontalOffset c \<and> cfg_horizontalOffset c + box_width menuBox \<le> W
            \<longrightarrow> l = cfg_horizontalOffset c) \<and>
         (b < 0 \<and> 0 \<le> cfg_verticalOffset c \<and> cfg_verticalOffset c + box_height menuBox \<le> H
            \<longrightarrow> t = cfg_verticalOffset c) \<and>
         (a < 0 \<and> cfg_horizontalOffset c < 0 \<and> box_width menuBox \<le> W \<longrightarrow> l = 0) \<and>
         (b < 0 \<and> cfg_verticalOffset c < 0 \<and> box_height menuBox \<le> H \<longrightarrow> t = 0) \<and>
         (box_width menuBox - min (cfg_horizontalOffset c) 0 \<le> W \<longrightarrow> 0 \<le> l) \<and>
         (box_height menuBox - min (cfg_verticalOffset c) 0 \<le> H \<longrightarrow> 0 \<le> t) \<and>
         l + box_width menuBox \<le> W \<and> t + box_height menuBox \<le> H"
  using assms
  by (auto simp: menu_position_def offscreen_check_def Let_def split: if_splits)

theorem offscreen_check_insets_witness:
  "anchor_position \<lparr>ev_target = 0, clientX = 0, clientY = 0\<rparr>
     \<lparr>cfg_menu = 0, cfg_event = ''click'', cfg_position = ''left'',
      cfg_horizontalOffset = 5, cfg_verticalOffset = - 3, cfg_data = VUndef\<rparr>
     \<lparr>box_left = 10, box_top = - 20, box_width = 80, box_height = 20\<rparr>
     \<lparr>box_left = 0, box_top = 0, box_width = 60, box_height = 40\<rparr> = (- 45, - 23) \<and>
   menu_position \<lparr>ev_target = 0, clientX = 0, clientY = 0\<rparr>
     \<lparr>cfg_menu = 0, cfg_event = ''click'', cfg_position = ''left'',
      cfg_horizontalOffset = 5, cfg_verticalOffset = - 3, cfg_data = VUndef\<rparr>
     \<lparr>box_left = 10, box_top = - 20, box_width = 80, box_height = 20\<rparr>
     \<lparr>box_left = 0, box_top = 0, box_width = 60, box_height = 40\<rparr> 1000 800 = (5, 0)"
proof -
  let ?e = "\<lparr>ev_target = 0, clientX = 0, clientY = 0\<rparr>"
  let ?c = "\<lparr>cfg_menu = 0, cfg_event = ''click'', cfg_position = ''left'',
             cfg_horizontalOffset = 5, cfg_verticalOffset = - 3, cfg_data = VUndef\<rparr>"
  let ?t = "\<lparr>box_left = 10, box_top = - 20, box_width = 80, box_height = 20\<rparr>"
  let ?m = "\<lparr>box_left = 0, box_top = 0, box_width = 60, box_height = 40\<rparr>"
  have a: "anchor_position ?e ?c ?t ?m = (- 45, - 23)"
    by (simp add: anchor_position_def)
  obtain l t where p: "menu_position ?e ?c ?t ?m 1000 800 = (l, t)"
    by (cases "menu_position ?e ?c ?t ?m 1000 800") blast
  from offscreen_check_insets [OF p a] have "l = 5" and "t = 0"
    by simp_all
  with a p show ?thesis
    by simp
qed

section \<open>Auxiliary facts\<close>

subsection \<open>The sweep over the live collection\<close>

lemma sweep_short: "length elements \<le> 1 \<Longrightarrow> sweep 0 elements = []"
proof (cases elements)
  case Nil
  then show ?thesis by (simp add: sweep.simps)
next
  case (Cons x xs)
  assume "length elements \<le> 1"
  with Cons have "xs = []" by simp
  with Cons show ?thesis by (simp add: sweep.simps [of 0 "[x]"] sweep.simps [of "Suc 0" "[]"])
qed

lemma sweep_length: "length (sweep idx elements) \<le> length elements"
proof (induction idx elements rule: sweep.induct)
  case (1 idx elements)
  show ?case
  proof (cases "idx < length elements")
    case True
    with 1 have "length (sweep (Suc idx) (take idx elements @ drop (Suc idx) elements))
                   \<le> length (take idx elements @ drop (Suc idx) elements)"
      by simp
    with True show ?thesis
      by (subst sweep.simps) simp
  next
    case False
    then show ?thesis by (subst sweep.simps) simp
  qed
qed

lemma sweep_subset: "set (sweep idx elements) \<subseteq> set elements"
proof (induction idx elements rule: sweep.induct)
  case (1 idx elements)
  show ?case
  proof (cases "idx < length elements")
    case True
    with 1 have "set (sweep (Suc idx) (take idx elements @ drop (Suc idx) elements))
                   \<subseteq> set (take idx elements @ drop (Suc idx) elements)"
      by simp
    moreover have "set (take idx elements @ drop (Suc idx) elements) \<subseteq> set elements"
      using set_take_subset set_drop_subset by fastforce
    ultimately show ?thesis using True
      by (subst sweep.simps) auto
  next
    case False
    then show ?thesis by (subst sweep.simps) simp
  qed
qed

subsection \<open>The invariant of the document\<close>

lemma ui_inv_close: "ui_inv s \<Longrightarrow> ui_inv (closeContextMenu s)"
  by (auto simp: ui_inv_def closeContextMenu_def sweep_short)

lemma close_document: "ui_inv s \<Longrightarrow> document (closeContextMenu s) = []"
  by (simp add: ui_inv_def closeContextMenu_def sweep_short)

lemma attach_fold_ui:
  "document (fold (\<lambda>el st. st\<lparr>ctxMenu := (ctxMenu st)(el \<mapsto> obj),
                            bound := insert (el, ev) (bound st)\<rparr>) els s) = document s \<and>
   isOpen (fold (\<lambda>el st. st\<lparr>ctxMenu := (ctxMenu st)(el \<mapsto> obj),
                            bound := insert (el, ev) (bound st)\<rparr>) els s) = isOpen s \<and>
   next_node (fold (\<lambda>el st. st\<lparr>ctxMenu := (ctxMenu st)(el \<mapsto> obj),
                            bound := insert (el, ev) (bound st)\<rparr>) els s) = next_node s \<and>
   window_listeners (fold (\<lambda>el st. st\<lparr>ctxMenu := (ctxMenu st)(el \<mapsto> obj),
                            bound := insert (el, ev) (bound st)\<rparr>) els s) = window_listeners s"
  by (induction els arbitrary: s) simp_all

lemma ui_inv_attach: "ui_inv s \<Longrightarrow> ui_inv (attach sel menu opts s)"
  by (simp add: ui_inv_def attach_def Let_def attach_fold_ui)

lemma setEnabled_loop_ui:
  "document (state_of (setEnabled_loop els key b s)) = document s \<and>
   isOpen (state_of (setEnabled_loop els key b s)) = isOpen s \<and>
   next_node (state_of (setEnabled_loop els key b s)) = next_node s \<and>
   window_listeners (state_of (setEnabled_loop els key b s)) = window_listeners s"
  by (induction els key b s rule: setEnabled_loop.induct)
     (auto split: option.splits jsval.splits)

lemma ui_inv_setEnabledState: "ui_inv s \<Longrightarrow> ui_inv (state_of (setEnabledState sel key b s))"
  by (simp add: ui_inv_def setEnabledState_def setEnabled_loop_ui)

lemma createContextMenu_ui:
  "createContextMenu tgt s = Inr (menu, s') \<Longrightarrow>
     menu = next_node s \<and> document s' = document s \<and> isOpen s' = isOpen s \<and>
     next_node s < next_node s' \<and> window_listeners s' = window_listeners s"
  by (auto simp: createContextMenu_def Let_def split: option.splits sum.splits)

lemma ui_inv_onContextMenu: "ui_inv s \<Longrightarrow> ui_inv (state_of (onContextMenu e s))"
proof -
  assume inv: "ui_inv s"
  let ?s0 = "s\<lparr>target_var := Some (ev_target e)\<rparr>"
  let ?s1 = "closeContextMenu ?s0"
  from inv have inv0: "ui_inv ?s0" by (simp add: ui_inv_def)
  then have inv1: "ui_inv ?s1" by (rule ui_inv_close)
  from inv0 have doc1: "document ?s1 = []" by (rule close_document)
  show ?thesis
  proof (cases "ctxMenu ?s1 (ev_target e)")
    case None
    with inv1 show ?thesis by (simp add: onContextMenu_def Let_def)
  next
    case (Some a)
    show ?thesis
    proof (cases "createContextMenu (ev_target e) ?s1")
      case (Inl err)
      with Some inv1 show ?thesis by (simp add: onContextMenu_def Let_def)
    next
      case (Inr r)
      obtain menu s2 where r: "r = (menu, s2)" by (cases r)
      from createContextMenu_ui [OF Inr [unfolded r]] doc1 inv1
      have "ui_inv (s2\<lparr>document := document s2 @ [menu], isOpen := True,
                        timers := timers s2 @ [(e, menu)]\<rparr>)"
        by (simp add: ui_inv_def)
      with Some Inr r show ?thesis by (simp add: onContextMenu_def Let_def)
    qed
  qed
qed

lemma ui_inv_display: "ui_inv s \<Longrightarrow> ui_inv (state_of (display e menu opts s))"
proof -
  assume inv: "ui_inv s"
  have *: "\<And>h c n. ui_inv (s\<lparr>objs := h, configs := c, next_addr := n\<rparr>)"
    using inv by (simp add: ui_inv_def)
  have **: "\<And>h c n f. ui_inv (s\<lparr>objs := h, configs := c, next_addr := n, ctxMenu := f\<rparr>)"
    using inv by (simp add: ui_inv_def)
  show ?thesis
    by (cases e) (simp_all add: display_def Let_def * ** ui_inv_onContextMenu)
qed

lemma positionContextMenu_ui:
  "document (state_of (positionContextMenu e tgt menu s)) = document s \<and>
   isOpen (state_of (positionContextMenu e tgt menu s)) = isOpen s \<and>
   next_node (state_of (positionContextMenu e tgt menu s)) = next_node s \<and>
   window_listeners (state_of (positionContextMenu e tgt menu s)) = window_listeners s"
  by (simp add: positionContextMenu_def Let_def split: option.splits)

lemma ui_inv_tick: "ui_inv s \<Longrightarrow> ui_inv (state_of (tick s))"
  by (auto simp: tick_def timer_callback_def Let_def ui_inv_def positionContextMenu_ui
           split: list.splits option.splits)

lemma ui_inv_window_event: "ui_inv s \<Longrightarrow> ui_inv (window_event name s)"
  by (simp add: window_event_def ui_inv_close)

lemma ui_inv_item_listener: "ui_inv s \<Longrightarrow> ui_inv (state_of (item_listener menu this s))"
proof -
  assume inv: "ui_inv s"
  have "\<And>c. ui_inv (closeContextMenu (s\<lparr>calls := c\<rparr>))"
    using inv by (intro ui_inv_close) (simp add: ui_inv_def)
  with inv show ?thesis
    by (simp add: item_listener_def split: option.splits jsval.splits prod.splits)
qed

lemma ui_inv_click_row: "ui_inv s \<Longrightarrow> ui_inv (state_of (click_row menu row s))"
proof -
  assume inv: "ui_inv s"
  have "ui_inv (state_of (case item_listener menu this s of
                        Done s1 \<Rightarrow> Done (window_event ''click'' s1)
                      | Thrown err s1 \<Rightarrow> Thrown err (window_event ''click'' s1)))" for this
    using ui_inv_item_listener [OF inv, of menu this]
    by (cases "item_listener menu this s") (simp_all add: ui_inv_window_event)
  with inv show ?thesis
    by (simp add: click_row_def ui_inv_window_event split: option.splits)
qed

lemma ui_inv_perform: "ui_inv s \<Longrightarrow> ui_inv (state_of (perform a s))"
proof (cases a)
  case (NewObject ps)
  assume "ui_inv s"
  with NewObject show ?thesis by (simp add: ui_inv_def)
qed (simp_all add: ui_inv_attach ui_inv_display ui_inv_setEnabledState enable_def disable_def
       close_def ui_inv_close ui_inv_onContextMenu ui_inv_tick ui_inv_click_row
       ui_inv_window_event)

lemma ui_inv_initial: "initial s \<Longrightarrow> ui_inv s"
  by (simp add: initial_def ui_inv_def)

lemma reachable_ui_inv: "reachable s \<Longrightarrow> ui_inv s"
  by (induction rule: reachable.induct) (simp_all add: ui_inv_initial ui_inv_perform)

subsection \<open>Property lists\<close>

lemma get_prop_update:
  "get_prop (AList.update k v ps) k' = (if k' = k then v else get_prop ps k')"
  by (simp add: get_prop_def update_conv')

lemma keys_update: "fst ` set (AList.update k v ps) = insert k (fst ` set ps)"
  by (simp add: dom_update)

lemma hasOwnProperty_keys: "hasOwnProperty ps k = (k \<in> fst ` set ps)"
  by (simp add: hasOwnProperty_def map_of_eq_None_iff)

lemma fold_update_get:
  "get_prop (fold (\<lambda>key acc. AList.update key (f key) acc) ks obj) k =
     (if k \<in> set ks then f k else get_prop obj k)"
  by (induction ks arbitrary: obj) (auto simp: get_prop_update)

lemma fold_update_keys:
  "fst ` set (fold (\<lambda>key acc. AList.update key (f key) acc) ks obj) = fst ` set obj \<union> set ks"
  by (induction ks arbitrary: obj) (auto simp: keys_update)

lemma extend_props_get:
  "get_prop (extend_props obj source) k =
     (if k \<in> fst ` set source then get_prop source k else get_prop obj k)"
  by (simp add: extend_props_def fold_update_get)

lemma extend_props_keys:
  "fst ` set (extend_props obj source) = fst ` set obj \<union> fst ` set source"
  by (simp add: extend_props_def fold_update_keys)

lemma props_of_upd: "props_of (h(a \<mapsto> ps)) b = (if b = a then ps else props_of h b)"
  by (simp add: props_of_def)

subsection \<open>One round of \<open>normalizeMenu\<close>\<close>

lemma round_next: "snd (normalize_round m idx hn) = Suc (snd hn)"
  by (simp add: normalize_round_def Let_def)

lemma round_old: "a \<noteq> snd hn \<Longrightarrow> a \<noteq> m \<Longrightarrow> fst (normalize_round m idx hn) a = fst hn a"
  by (simp add: normalize_round_def Let_def)

lemma round_keys:
  "m \<noteq> snd hn \<Longrightarrow>
     fst ` set (props_of (fst (normalize_round m idx hn)) m) =
       insert idx (fst ` set (props_of (fst hn) m))"
  by (simp add: normalize_round_def Let_def props_of_upd keys_update)

lemma round_get:
  "m \<noteq> snd hn \<Longrightarrow>
     get_prop (props_of (fst (normalize_round m idx hn)) m) k =
       (if k = idx then VObj (snd hn) else get_prop (props_of (fst hn) m) k)"
  by (simp add: normalize_round_def Let_def props_of_upd get_prop_update)

lemma round_item:
  "m \<noteq> snd hn \<Longrightarrow>
     fst (normalize_round m idx hn) (snd hn) =
       Some (normalize_item (fst hn) idx (get_prop (props_of (fst hn) m) idx))"
  by (simp add: normalize_round_def Let_def)

lemma round_dom:
  "dom (fst (normalize_round m idx hn)) = insert m (insert (snd hn) (dom (fst hn)))"
  by (auto simp: normalize_round_def Let_def)

subsection \<open>The loop of \<open>normalizeMenu\<close>\<close>

lemma loop_Cons:
  "normalize_loop m (idx # rest) hn = normalize_loop m rest (normalize_round m idx hn)"
  by (simp add: normalize_loop_def)

lemma loop_Nil: "normalize_loop m [] hn = hn"
  by (simp add: normalize_loop_def)

lemma loop_next: "snd (normalize_loop m ks hn) = snd hn + length ks"
  by (induction ks arbitrary: hn) (simp_all add: loop_Cons loop_Nil round_next)

lemma loop_old:
  "a < snd hn \<Longrightarrow> a \<noteq> m \<Longrightarrow> fst (normalize_loop m ks hn) a = fst hn a"
proof (induction ks arbitrary: hn)
  case Nil
  then show ?case by (simp add: loop_Nil)
next
  case (Cons idx rest)
  from Cons.prems have "a < snd (normalize_round m idx hn)" by (simp add: round_next)
  from Cons.IH [OF this Cons.prems(2)] Cons.prems show ?case
    by (simp add: loop_Cons round_old)
qed

lemma loop_above:
  "snd hn + length ks \<le> a \<Longrightarrow> a \<noteq> m \<Longrightarrow> fst (normalize_loop m ks hn) a = fst hn a"
proof (induction ks arbitrary: hn)
  case Nil
  then show ?case by (simp add: loop_Nil)
next
  case (Cons idx rest)
  from Cons.prems have "snd (normalize_round m idx hn) + length rest \<le> a"
    by (simp add: round_next)
  from Cons.IH [OF this Cons.prems(2)] Cons.prems show ?case
    by (simp add: loop_Cons round_old)
qed

lemma loop_keys:
  "m < snd hn \<Longrightarrow>
     fst ` set (props_of (fst (normalize_loop m ks hn)) m) =
       fst ` set (props_of (fst hn) m) \<union> set ks"
proof (induction ks arbitrary: hn)
  case Nil
  then show ?case by (simp add: loop_Nil)
next
  case (Cons idx rest)
  from Cons.prems have "m < snd (normalize_round m idx hn)" by (simp add: round_next)
  from Cons.IH [OF this] Cons.prems show ?case
    by (simp add: loop_Cons round_keys)
qed

lemma loop_other:
  "m < snd hn \<Longrightarrow> k \<notin> set ks \<Longrightarrow>
     get_prop (props_of (fst (normalize_loop m ks hn)) m) k = get_prop (props_of (fst hn) m) k"
proof (induction ks arbitrary: hn)
  case Nil
  then show ?case by (simp add: loop_Nil)
next
  case (Cons idx rest)
  from Cons.prems have "m < snd (normalize_round m idx hn)" "k \<notin> set rest"
    by (simp_all add: round_next)
  from Cons.IH [OF this] Cons.prems show ?case
    by (simp add: loop_Cons round_get)
qed

lemma loop_entry:
  "m < snd hn \<Longrightarrow> k \<in> set ks \<Longrightarrow>
     \<exists>i. get_prop (props_of (fst (normalize_loop m ks hn)) m) k = VObj i \<and>
         snd hn \<le> i \<and> i < snd hn + length ks"
proof (induction ks arbitrary: hn)
  case Nil
  then show ?case by simp
next
  case (Cons idx rest)
  from Cons.prems have m': "m < snd (normalize_round m idx hn)" by (simp add: round_next)
  show ?case
  proof (cases "k \<in> set rest")
    case True
    from Cons.IH [OF m' True] show ?thesis
      by (auto simp: loop_Cons round_next)
  next
    case False
    with Cons.prems have k: "k = idx" by simp
    from loop_other [OF m' False] Cons.prems k
    have "get_prop (props_of (fst (normalize_loop m rest (normalize_round m idx hn))) m) k =
            VObj (snd hn)"
      by (simp add: round_get)
    then show ?thesis by (simp add: loop_Cons)
  qed
qed

lemma loop_dom:
  "dom (fst (normalize_loop m ks hn)) \<subseteq>
     dom (fst hn) \<union> {snd hn ..< snd hn + length ks} \<union> (if ks = [] then {} else {m})"
proof (induction ks arbitrary: hn)
  case Nil
  then show ?case by (simp add: loop_Nil)
next
  case (Cons idx rest)
  from Cons.IH [of "normalize_round m idx hn"] show ?case
    by (auto simp: loop_Cons round_next round_dom split: if_splits)
qed

text \<open>The item stored for a key depends on the store only through the entry's own record.\<close>

lemma normalize_item_cong:
  "(\<And>r. v = VObj r \<Longrightarrow> h' r = h r) \<Longrightarrow> normalize_item h' k v = normalize_item h k v"
  by (cases v) (simp_all add: normalize_item_def isFunction_def own_props_def props_of_def Let_def)

lemma loop_item:
  "distinct ks \<Longrightarrow> m < snd hn \<Longrightarrow> k \<in> set ks \<Longrightarrow>
   (\<And>r. get_prop (props_of (fst hn) m) k = VObj r \<Longrightarrow> r < snd hn \<and> r \<noteq> m) \<Longrightarrow>
     \<exists>i. get_prop (props_of (fst (normalize_loop m ks hn)) m) k = VObj i \<and> snd hn \<le> i \<and>
         i < snd hn + length ks \<and>
         fst (normalize_loop m ks hn) i =
           Some (normalize_item (fst hn) k (get_prop (props_of (fst hn) m) k))"
proof (induction ks arbitrary: hn)
  case Nil
  then show ?case by simp
next
  case (Cons idx rest)
  let ?hn2 = "normalize_round m idx hn"
  from Cons.prems have mn: "m < snd ?hn2" and mn': "m \<noteq> snd hn"
    by (simp_all add: round_next)
  show ?case
  proof (cases "k = idx")
    case True
    with Cons.prems have notin: "k \<notin> set rest" by simp
    from loop_other [OF mn notin] mn' True
    have "get_prop (props_of (fst (normalize_loop m rest ?hn2)) m) k = VObj (snd hn)"
      by (simp add: round_get)
    moreover from loop_old [of "snd hn" ?hn2 m rest] mn'
    have "fst (normalize_loop m rest ?hn2) (snd hn) =
            Some (normalize_item (fst hn) idx (get_prop (props_of (fst hn) m) idx))"
      by (simp add: round_next round_item)
    ultimately show ?thesis using True by (simp add: loop_Cons)
  next
    case False
    with Cons.prems have kin: "k \<in> set rest" and d: "distinct rest" by simp_all
    have same: "get_prop (props_of (fst ?hn2) m) k = get_prop (props_of (fst hn) m) k"
      using False mn' by (simp add: round_get)
    have cond: "\<And>r. get_prop (props_of (fst ?hn2) m) k = VObj r \<Longrightarrow> r < snd ?hn2 \<and> r \<noteq> m"
      using Cons.prems(4) same by (fastforce simp: round_next)
    from Cons.IH [OF d mn kin cond]
    obtain i where i: "get_prop (props_of (fst (normalize_loop m rest ?hn2)) m) k = VObj i"
        "snd ?hn2 \<le> i" "i < snd ?hn2 + length rest"
        "fst (normalize_loop m rest ?hn2) i =
           Some (normalize_item (fst ?hn2) k (get_prop (props_of (fst ?hn2) m) k))"
      by blast
    have "normalize_item (fst ?hn2) k (get_prop (props_of (fst hn) m) k) =
          normalize_item (fst hn) k (get_prop (props_of (fst hn) m) k)"
    proof (rule normalize_item_cong)
      fix r assume "get_prop (props_of (fst hn) m) k = VObj r"
      with Cons.prems(4) have "r < snd hn" "r \<noteq> m" by auto
      then show "fst ?hn2 r = fst hn r" by (simp add: round_old)
    qed
    with i same show ?thesis by (auto simp: loop_Cons round_next)
  qed
qed

lemma cfg_menu_make_config [simp]: "cfg_menu (make_config m opts) = m"
  by (simp add: make_config_def extend_config_def)

lemma props_of_absent: "a \<notin> dom h \<Longrightarrow> props_of h a = []"
  by (auto simp: props_of_def split: option.splits)

subsection \<open>The invariant of the store\<close>

text \<open>After \<open>normalizeMenu\<close> every entry of the menu is an object below the new bound.\<close>

lemma normalizeMenu_facts:
  fixes h :: heap and n m :: addr
  assumes d: "dom h \<subseteq> {..< n}"
  defines "hn1 \<equiv> normalizeMenu m (h, n)"
  shows "n \<le> snd hn1"
    and "dom (fst hn1) \<subseteq> {..< snd hn1}"
    and "\<And>a. a < n \<Longrightarrow> a \<noteq> m \<Longrightarrow> fst hn1 a = h a"
    and "\<And>k. k \<in> fst ` set (props_of (fst hn1) m) \<Longrightarrow>
           \<exists>i. get_prop (props_of (fst hn1) m) k = VObj i \<and> i < snd hn1"
proof -
  let ?ks = "map fst (props_of h m)"
  have hn1: "hn1 = normalize_loop m ?ks (h, n)"
    by (simp add: hn1_def normalizeMenu_def)
  show "n \<le> snd hn1" by (simp add: hn1 loop_next)
  show "\<And>a. a < n \<Longrightarrow> a \<noteq> m \<Longrightarrow> fst hn1 a = h a"
    by (simp add: hn1 loop_old)
  show "dom (fst hn1) \<subseteq> {..< snd hn1}"
  proof (cases "m < n")
    case True
    from loop_dom [of m ?ks "(h, n)"]
    have sub: "dom (fst hn1) \<subseteq> dom h \<union> {n ..< n + length ?ks} \<union> {m}"
      by (auto simp: hn1 split: if_splits)
    show ?thesis
    proof
      fix x assume "x \<in> dom (fst hn1)"
      with sub have "x \<in> dom h \<or> x \<in> {n ..< n + length ?ks} \<or> x = m" by auto
      with d True show "x \<in> {..< snd hn1}" by (auto simp: hn1 loop_next)
    qed
  next
    case False
    with d have "m \<notin> dom h" by auto
    then have "?ks = []" by (simp add: props_of_absent)
    with d show ?thesis by (simp add: hn1 loop_Nil)
  qed
  show "\<exists>i. get_prop (props_of (fst hn1) m) k = VObj i \<and> i < snd hn1"
    if k: "k \<in> fst ` set (props_of (fst hn1) m)" for k
  proof (cases "m < n")
    case True
    then have mn: "m < snd (h, n)" by simp
    from loop_keys [OF mn, of ?ks] k have "k \<in> set ?ks"
      by (auto simp: hn1)
    from loop_entry [OF mn this] show ?thesis
      by (auto simp: hn1 loop_next)
  next
    case False
    with d have "m \<notin> dom h" by auto
    then have "?ks = []" "props_of h m = []" by (simp_all add: props_of_absent)
    with k show ?thesis by (simp add: hn1 loop_Nil)
  qed
qed

lemma entries_ok_mono:
  "entries_ok h n m \<Longrightarrow> n \<le> n' \<Longrightarrow> props_of h' m = props_of h m \<Longrightarrow> entries_ok h' n' m"
  by (fastforce simp: entries_ok_def)

lemma entries_ok_objects:
  "(\<And>k. k \<in> fst ` set (props_of h m) \<Longrightarrow> \<exists>i. get_prop (props_of h m) k = VObj i \<and> i < n)
     \<Longrightarrow> entries_ok h n m"
  by (fastforce simp: entries_ok_def)

text \<open>The store and the configurations after the allocations of \<open>attach\<close>.\<close>

lemma attach_store_inv:
  fixes s :: state and menu :: addr and opts :: options
  assumes inv: "heap_inv s"
  defines "hn1 \<equiv> normalizeMenu menu (objs s, next_addr s)"
  defines "hn2 \<equiv> copy_object menu hn1"
  defines "s1 \<equiv> s\<lparr>objs := fst hn2,
                   configs := (configs s)(snd hn2 \<mapsto> make_config (snd hn1) opts),
                   next_addr := Suc (snd hn2)\<rparr>"
  shows "heap_inv s1" and "configs s1 (snd hn2) \<noteq> None"
proof -
  let ?h = "objs s" and ?n = "next_addr s"
  from inv have d: "dom ?h \<subseteq> {..< ?n}" by (simp add: heap_inv_def)
  note nf = normalizeMenu_facts [OF d, where m = menu, folded hn1_def]
  let ?h1 = "fst hn1" and ?n1 = "snd hn1"
  let ?copy = "extend_props [] (props_of ?h1 menu)"
  have hn2: "hn2 = (?h1(?n1 \<mapsto> ?copy), Suc ?n1)"
    by (simp add: hn2_def copy_object_def)
  have h2: "objs s1 = ?h1(?n1 \<mapsto> ?copy)" and n2: "next_addr s1 = Suc (Suc ?n1)"
    and c2: "configs s1 = (configs s)(Suc ?n1 \<mapsto> make_config ?n1 opts)"
    and cm: "ctxMenu s1 = ctxMenu s"
    by (simp_all add: s1_def hn2)
  show "configs s1 (snd hn2) \<noteq> None" by (simp add: c2 hn2)
  have dom1: "dom (objs s1) \<subseteq> {..< next_addr s1}"
    using nf(2) by (auto simp: h2 n2)
  have ptr: "configs s1 a \<noteq> None" if "ctxMenu s1 el = Some a" for el a
    using that inv by (auto simp: cm c2 heap_inv_def)
  have new: "entries_ok (objs s1) (next_addr s1) ?n1"
  proof (rule entries_ok_objects)
    fix k assume "k \<in> fst ` set (props_of (objs s1) ?n1)"
    then have k: "k \<in> fst ` set (props_of ?h1 menu)"
      by (simp add: h2 props_of_upd extend_props_keys)
    from nf(4) [OF k] obtain i where "get_prop (props_of ?h1 menu) k = VObj i" "i < ?n1"
      by blast
    with k show "\<exists>i. get_prop (props_of (objs s1) ?n1) k = VObj i \<and> i < next_addr s1"
      by (auto simp: h2 n2 props_of_upd extend_props_get)
  qed
  have old: "cfg_menu c < next_addr s1 \<and> entries_ok (objs s1) (next_addr s1) (cfg_menu c)"
    if c: "configs s a = Some c" for a c
  proof -
    from inv c have lt: "cfg_menu c < ?n" and ok: "entries_ok ?h ?n (cfg_menu c)"
      by (auto simp: heap_inv_def)
    from lt nf(1) have lt1: "cfg_menu c < ?n1" by simp
    then have p2: "props_of (objs s1) (cfg_menu c) = props_of ?h1 (cfg_menu c)"
      by (simp add: h2 props_of_upd)
    show ?thesis
    proof (cases "cfg_menu c = menu")
      case True
      have "entries_ok (objs s1) (next_addr s1) (cfg_menu c)"
      proof (rule entries_ok_objects)
        fix k assume "k \<in> fst ` set (props_of (objs s1) (cfg_menu c))"
        with p2 True have "k \<in> fst ` set (props_of ?h1 menu)" by simp
        from nf(4) [OF this] show
          "\<exists>i. get_prop (props_of (objs s1) (cfg_menu c)) k = VObj i \<and> i < next_addr s1"
          using p2 True by (auto simp: n2)
      qed
      with lt1 show ?thesis by (simp add: n2)
    next
      case False
      with lt nf(3) have "?h1 (cfg_menu c) = ?h (cfg_menu c)" by simp
      then have "props_of ?h1 (cfg_menu c) = props_of ?h (cfg_menu c)"
        by (simp add: props_of_def)
      with p2 have "props_of (objs s1) (cfg_menu c) = props_of ?h (cfg_menu c)" by simp
      from entries_ok_mono [OF ok _ this, of "next_addr s1"] nf(1) lt1 show ?thesis
        by (simp add: n2)
    qed
  qed
  have all: "cfg_menu c < next_addr s1 \<and> entries_ok (objs s1) (next_addr s1) (cfg_menu c)"
    if "configs s1 a = Some c" for a c
  proof (cases "a = Suc ?n1")
    case True
    with that have "c = make_config ?n1 opts" by (simp add: c2)
    with new show ?thesis by (simp add: n2)
  next
    case False
    with that have "configs s a = Some c" by (simp add: c2)
    then show ?thesis by (rule old)
  qed
  from dom1 ptr all show "heap_inv s1"
    unfolding heap_inv_def by blast
qed

lemma attach_fold_heap:
  "objs (fold (\<lambda>el st. st\<lparr>ctxMenu := (ctxMenu st)(el \<mapsto> obj),
                            bound := insert (el, ev) (bound st)\<rparr>) els s) = objs s \<and>
   configs (fold (\<lambda>el st. st\<lparr>ctxMenu := (ctxMenu st)(el \<mapsto> obj),
                            bound := insert (el, ev) (bound st)\<rparr>) els s) = configs s \<and>
   next_addr (fold (\<lambda>el st. st\<lparr>ctxMenu := (ctxMenu st)(el \<mapsto> obj),
                            bound := insert (el, ev) (bound st)\<rparr>) els s) = next_addr s \<and>
   (\<forall>x. ctxMenu (fold (\<lambda>el st. st\<lparr>ctxMenu := (ctxMenu st)(el \<mapsto> obj),
                            bound := insert (el, ev) (bound st)\<rparr>) els s) x =
        (if x \<in> set els then Some obj else ctxMenu s x))"
  by (induction els arbitrary: s) auto

lemma heap_inv_point:
  "heap_inv s \<Longrightarrow> configs s obj \<noteq> None \<Longrightarrow>
   objs s' = objs s \<Longrightarrow> configs s' = configs s \<Longrightarrow> next_addr s' = next_addr s \<Longrightarrow>
   (\<And>x. ctxMenu s' x = ctxMenu s x \<or> ctxMenu s' x = Some obj) \<Longrightarrow> heap_inv s'"
  unfolding heap_inv_def by (metis option.inject)

lemma heap_inv_attach: "heap_inv s \<Longrightarrow> heap_inv (attach sel menu opts s)"
proof -
  assume inv: "heap_inv s"
  let ?hn1 = "normalizeMenu menu (objs s, next_addr s)"
  let ?hn2 = "copy_object menu ?hn1"
  let ?c = "make_config (snd ?hn1) opts"
  let ?s1 = "s\<lparr>objs := fst ?hn2, configs := (configs s)(snd ?hn2 \<mapsto> ?c),
               next_addr := Suc (snd ?hn2)\<rparr>"
  let ?f = "\<lambda>el st. st\<lparr>ctxMenu := (ctxMenu st)(el \<mapsto> snd ?hn2),
                        bound := insert (el, cfg_event ?c) (bound st)\<rparr>"
  have eq: "attach sel menu opts s = fold ?f (getElements s sel) ?s1"
    by (simp add: attach_def Let_def)
  from attach_store_inv [OF inv, of menu opts]
  have i1: "heap_inv ?s1" and c1: "configs ?s1 (snd ?hn2) \<noteq> None" by simp_all
  show ?thesis
    unfolding eq
    by (rule heap_inv_point [OF i1 c1]) (simp_all add: attach_fold_heap)
qed

lemma same_store_refl [simp]: "same_store s s"
  by (simp add: same_store_def)

lemma same_store_trans: "same_store s s1 \<Longrightarrow> same_store s1 s2 \<Longrightarrow> same_store s s2"
  by (simp add: same_store_def)

lemma heap_inv_same_store: "same_store s s' \<Longrightarrow> heap_inv s \<Longrightarrow> heap_inv s'"
  by (simp add: same_store_def heap_inv_def)

lemma same_store_close: "same_store s (closeContextMenu s)"
  by (simp add: same_store_def closeContextMenu_def)

lemma same_store_create: "createContextMenu tgt s = Inr (menu, s') \<Longrightarrow> same_store s s'"
  by (auto simp: createContextMenu_def Let_def same_store_def split: option.splits sum.splits)

lemma same_store_onContextMenu: "same_store s (state_of (onContextMenu e s))"
proof -
  let ?s1 = "closeContextMenu (s\<lparr>target_var := Some (ev_target e)\<rparr>)"
  have s1: "same_store s ?s1"
    by (simp add: same_store_def closeContextMenu_def)
  show ?thesis
  proof (cases "ctxMenu ?s1 (ev_target e)")
    case None
    with s1 show ?thesis by (simp add: onContextMenu_def Let_def)
  next
    case (Some a)
    show ?thesis
    proof (cases "createContextMenu (ev_target e) ?s1")
      case (Inl err)
      with Some s1 show ?thesis by (simp add: onContextMenu_def Let_def)
    next
      case (Inr r)
      obtain menu s2 where r: "r = (menu, s2)" by (cases r)
      from same_store_create [OF Inr [unfolded r]] s1
      have "same_store s (s2\<lparr>document := document s2 @ [menu], isOpen := True,
                        timers := timers s2 @ [(e, menu)]\<rparr>)"
        by (simp add: same_store_def)
      with Some Inr r show ?thesis by (simp add: onContextMenu_def Let_def)
    qed
  qed
qed

lemma same_store_position: "same_store s (state_of (positionContextMenu e tgt menu s))"
  by (simp add: positionContextMenu_def Let_def same_store_def split: option.splits)

lemma same_store_tick: "same_store s (state_of (tick s))"
proof (cases "timers s")
  case Nil
  then show ?thesis by (simp add: tick_def)
next
  case (Cons p rest)
  obtain e menu where p: "p = (e, menu)" by (cases p)
  let ?s0 = "s\<lparr>timers := rest\<rparr>"
  let ?s1 = "?s0\<lparr>window_listeners := window_listeners ?s0 \<union> {''click'', ''resize'', ''scroll''}\<rparr>"
  let ?s2 = "?s1\<lparr>nodes := (nodes ?s1)(menu :=
                   map_option (\<lambda>m. m\<lparr>menu_visibility := ''visible''\<rparr>) (nodes ?s1 menu))\<rparr>"
  have s2: "same_store s ?s2" by (simp add: same_store_def)
  have "same_store s (state_of (timer_callback e menu ?s0))"
  proof (cases "target_var ?s2")
    case None
    with s2 show ?thesis by (simp add: timer_callback_def Let_def)
  next
    case (Some tgt)
    from same_store_trans [OF s2 same_store_position [of ?s2 e tgt menu]] Some
    show ?thesis by (simp add: timer_callback_def Let_def)
  qed
  with Cons p show ?thesis by (simp add: tick_def)
qed

lemma same_store_window_event: "same_store s (window_event name s)"
  by (simp add: window_event_def same_store_close)

lemma same_store_item_listener: "same_store s (state_of (item_listener menu this s))"
  by (simp add: item_listener_def same_store_def closeContextMenu_def
           split: option.splits jsval.splits prod.splits)

lemma same_store_click_row: "same_store s (state_of (click_row menu row s))"
proof -
  have "same_store s (state_of (case item_listener menu this s of
                        Done s1 \<Rightarrow> Done (window_event ''click'' s1)
                      | Thrown err s1 \<Rightarrow> Thrown err (window_event ''click'' s1)))" for this
    using same_store_item_listener [of s menu this]
    by (cases "item_listener menu this s")
       (auto intro: same_store_trans same_store_window_event)
  then show ?thesis
    by (simp add: click_row_def same_store_window_event split: option.splits)
qed

text \<open>Allocation of an object.\<close>

lemma heap_inv_alloc:
  assumes inv: "heap_inv s"
  shows "heap_inv (s\<lparr>objs := (objs s)(next_addr s \<mapsto> ps), next_addr := Suc (next_addr s)\<rparr>)"
proof -
  let ?s' = "s\<lparr>objs := (objs s)(next_addr s \<mapsto> ps), next_addr := Suc (next_addr s)\<rparr>"
  have "cfg_menu c < next_addr ?s' \<and> entries_ok (objs ?s') (next_addr ?s') (cfg_menu c)"
    if c: "configs ?s' a = Some c" for a c
  proof -
    from inv c have lt: "cfg_menu c < next_addr s"
      and ok: "entries_ok (objs s) (next_addr s) (cfg_menu c)"
      by (auto simp: heap_inv_def)
    from lt have "props_of (objs ?s') (cfg_menu c) = props_of (objs s) (cfg_menu c)"
      by (simp add: props_of_upd)
    from entries_ok_mono [OF ok _ this, of "next_addr ?s'"] lt show ?thesis by simp
  qed
  moreover from inv have "dom (objs ?s') \<subseteq> {..< next_addr ?s'}"
    by (auto simp: heap_inv_def)
  moreover from inv have "\<forall>el a. ctxMenu ?s' el = Some a \<longrightarrow> configs ?s' a \<noteq> None"
    by (simp add: heap_inv_def)
  ultimately show ?thesis unfolding heap_inv_def by blast
qed

text \<open>The allocations of \<open>display\<close> are those of \<open>attach\<close> on a fresh copy.\<close>

lemma display_store:
  fixes s :: state and menu :: addr and opts :: options
  assumes inv: "heap_inv s"
  defines "hn0 \<equiv> copy_object menu (objs s, next_addr s)"
  defines "hn1 \<equiv> normalizeMenu (next_addr s) hn0"
  defines "hn2 \<equiv> copy_object (next_addr s) hn1"
  defines "s1 \<equiv> s\<lparr>objs := fst hn2,
                   configs := (configs s)(snd hn2 \<mapsto> make_config (snd hn1) opts),
                   next_addr := Suc (snd hn2)\<rparr>"
  shows "heap_inv s1" and "configs s1 (snd hn2) \<noteq> None"
proof -
  let ?ps = "extend_props [] (props_of (objs s) menu)"
  let ?s0 = "s\<lparr>objs := (objs s)(next_addr s \<mapsto> ?ps), next_addr := Suc (next_addr s)\<rparr>"
  have i0: "heap_inv ?s0" using inv by (rule heap_inv_alloc)
  have hn0: "hn0 = (objs ?s0, next_addr ?s0)"
    by (simp add: hn0_def copy_object_def)
  have s1: "s1 = ?s0\<lparr>objs := fst (copy_object (next_addr s) (normalizeMenu (next_addr s) (objs ?s0, next_addr ?s0))),
                     configs := (configs ?s0)
                        (snd (copy_object (next_addr s) (normalizeMenu (next_addr s) (objs ?s0, next_addr ?s0)))
                           \<mapsto> make_config (snd (normalizeMenu (next_addr s) (objs ?s0, next_addr ?s0))) opts),
                     next_addr := Suc (snd (copy_object (next_addr s) (normalizeMenu (next_addr s) (objs ?s0, next_addr ?s0))))\<rparr>"
    unfolding s1_def hn2_def hn1_def hn0 by simp
  from attach_store_inv [OF i0, of "next_addr s" opts]
  show "heap_inv s1" and "configs s1 (snd hn2) \<noteq> None"
    unfolding s1 by (simp_all add: hn2_def hn1_def hn0)
qed

lemma heap_inv_display: "heap_inv s \<Longrightarrow> heap_inv (state_of (display e menu opts s))"
proof -
  assume inv: "heap_inv s"
  let ?hn0 = "copy_object menu (objs s, next_addr s)"
  let ?hn1 = "normalizeMenu (next_addr s) ?hn0"
  let ?hn2 = "copy_object (next_addr s) ?hn1"
  let ?s1 = "s\<lparr>objs := fst ?hn2,
               configs := (configs s)(snd ?hn2 \<mapsto> make_config (snd ?hn1) opts),
               next_addr := Suc (snd ?hn2)\<rparr>"
  from display_store [OF inv, of menu opts]
  have i1: "heap_inv ?s1" and c1: "configs ?s1 (snd ?hn2) \<noteq> None" by simp_all
  have pt: "heap_inv (?s1\<lparr>ctxMenu := (ctxMenu ?s1)(el \<mapsto> snd ?hn2)\<rparr>)" for el
    by (rule heap_inv_point [OF i1 c1]) simp_all
  show ?thesis
  proof (cases e)
    case (ArgEvent ev)
    from heap_inv_same_store [OF same_store_onContextMenu pt] ArgEvent show ?thesis
      by (simp add: display_def Let_def)
  next
    case (ArgElement el)
    from heap_inv_same_store [OF same_store_onContextMenu pt] ArgElement show ?thesis
      by (simp add: display_def Let_def)
  next
    case ArgOther
    with i1 show ?thesis by (simp add: display_def Let_def)
  qed
qed

text \<open>\<open>setEnabledState\<close> writes only \<open>enabled\<close>, into an object below the bound.\<close>

lemma heap_inv_set_enabled:
  assumes inv: "heap_inv s" and i: "i < next_addr s"
  shows "heap_inv (s\<lparr>objs := (objs s)(i \<mapsto>
           AList.update ''enabled'' (VBool b) (props_of (objs s) i))\<rparr>)"
proof -
  let ?s' = "s\<lparr>objs := (objs s)(i \<mapsto> AList.update ''enabled'' (VBool b) (props_of (objs s) i))\<rparr>"
  have "cfg_menu c < next_addr ?s' \<and> entries_ok (objs ?s') (next_addr ?s') (cfg_menu c)"
    if c: "configs ?s' a = Some c" for a c
  proof -
    from inv c have lt: "cfg_menu c < next_addr s"
      and ok: "entries_ok (objs s) (next_addr s) (cfg_menu c)"
      by (auto simp: heap_inv_def)
    have "entries_ok (objs ?s') (next_addr s) (cfg_menu c)"
    proof (cases "cfg_menu c = i")
      case True
      with ok show ?thesis
        by (auto simp: entries_ok_def props_of_upd keys_update get_prop_update)
    next
      case False
      then have "props_of (objs ?s') (cfg_menu c) = props_of (objs s) (cfg_menu c)"
        by (simp add: props_of_upd)
      from entries_ok_mono [OF ok _ this] show ?thesis by simp
    qed
    with lt show ?thesis by simp
  qed
  moreover from inv i have "dom (objs ?s') \<subseteq> {..< next_addr ?s'}"
    by (auto simp: heap_inv_def)
  moreover from inv have "\<forall>el a. ctxMenu ?s' el = Some a \<longrightarrow> configs ?s' a \<noteq> None"
    by (simp add: heap_inv_def)
  ultimately show ?thesis unfolding heap_inv_def by blast
qed

lemma heap_inv_entry:
  "heap_inv s \<Longrightarrow> configs s a = Some c \<Longrightarrow> hasOwnProperty (props_of (objs s) (cfg_menu c)) key \<Longrightarrow>
   get_prop (props_of (objs s) (cfg_menu c)) key = VObj i \<Longrightarrow> i < next_addr s"
  by (fastforce simp: heap_inv_def entries_ok_def hasOwnProperty_keys)

lemma heap_inv_setEnabled_loop:
  "heap_inv s \<Longrightarrow> heap_inv (state_of (setEnabled_loop els key b s))"
proof (induction els key b s rule: setEnabled_loop.induct)
  case (1 key enabled s)
  then show ?case by simp
next
  case (2 el rest key enabled s)
  show ?case
  proof (cases "ctxMenu s el")
    case None
    with 2 show ?thesis by simp
  next
    case (Some a)
    show ?thesis
    proof (cases "configs s a")
      case None
      with Some 2 show ?thesis by simp
    next
      case c: (Some c)
      show ?thesis
      proof (cases "hasOwnProperty (props_of (objs s) (cfg_menu c)) key")
        case False
        with Some c 2 show ?thesis by simp
      next
        case True
        show ?thesis
        proof (cases "get_prop (props_of (objs s) (cfg_menu c)) key")
          case (VObj i)
          from heap_inv_entry [OF "2.prems" c True VObj] have "i < next_addr s" .
          from heap_inv_set_enabled [OF "2.prems" this]
          have "heap_inv (s\<lparr>objs := (objs s)(i \<mapsto>
                   AList.update ''enabled'' (VBool enabled) (props_of (objs s) i))\<rparr>)" .
          from "2.IH"(2) [OF Some c True VObj this] Some c True VObj show ?thesis by simp
        next
          case (VFun f)
          from "2.IH"(1) [OF Some c True VFun "2.prems"] Some c True VFun show ?thesis by simp
        qed (use Some c True 2 in simp_all)
      qed
    qed
  qed
qed

lemma heap_inv_perform: "heap_inv s \<Longrightarrow> heap_inv (state_of (perform a s))"
proof (cases a)
  case (NewObject ps)
  assume "heap_inv s"
  from heap_inv_alloc [OF this] NewObject show ?thesis by simp
qed (simp_all add: heap_inv_attach heap_inv_display enable_def disable_def setEnabledState_def
       heap_inv_setEnabled_loop close_def
       heap_inv_same_store [OF same_store_close]
       heap_inv_same_store [OF same_store_onContextMenu]
       heap_inv_same_store [OF same_store_tick]
       heap_inv_same_store [OF same_store_click_row]
       heap_inv_same_store [OF same_store_window_event])

lemma heap_inv_initial: "initial s \<Longrightarrow> heap_inv s"
  by (simp add: initial_def heap_inv_def)

lemma reachable_heap_inv: "reachable s \<Longrightarrow> heap_inv s"
  by (induction rule: reachable.induct) (simp_all add: heap_inv_initial heap_inv_perform)

text \<open>Under the invariant \<open>createContextMenu\<close> does not throw.\<close>

lemma create_items_ok:
  "(\<And>k. k \<in> set ks \<Longrightarrow> get_prop menu k \<noteq> VUndef \<and> get_prop menu k \<noteq> VNull) \<Longrightarrow>
     \<exists>items. create_items h menu ks n = Inr items \<and> length items = length ks"
proof (induction ks arbitrary: n)
  case Nil
  then show ?case by simp
next
  case (Cons key rest)
  from Cons.prems have "get_prop menu key \<noteq> VUndef" "get_prop menu key \<noteq> VNull" by simp_all
  then obtain item where item: "create_item h n key (get_prop menu key) = Inr item"
    by (simp add: create_item_def Let_def)
  from Cons.IH [of "Suc n"] Cons.prems
  obtain items where "create_items h menu rest (Suc n) = Inr items" "length items = length rest"
    by auto
  with item show ?case by simp
qed

lemma createContextMenu_ok:
  assumes inv: "heap_inv s" and a: "ctxMenu s tgt = Some a"
  shows "\<exists>s'. createContextMenu tgt s = Inr (next_node s, s')"
proof -
  from inv a have "configs s a \<noteq> None" unfolding heap_inv_def by blast
  then obtain c where c: "configs s a = Some c" by auto
  let ?menu = "props_of (objs s) (cfg_menu c)"
  from inv c have "entries_ok (objs s) (next_addr s) (cfg_menu c)" by (auto simp: heap_inv_def)
  then have "\<And>k. k \<in> set (map fst ?menu) \<Longrightarrow>
               get_prop ?menu k \<noteq> VUndef \<and> get_prop ?menu k \<noteq> VNull"
    by (auto simp: entries_ok_def)
  from create_items_ok [OF this, of "map fst ?menu" "objs s" "Suc (next_node s)"]
  obtain items where "create_items (objs s) ?menu (map fst ?menu) (Suc (next_node s)) = Inr items"
    by blast
  with a c show ?thesis by (simp add: createContextMenu_def Let_def)
qed

subsection \<open>Runs and the trigger handler\<close>

lemma reachable_run: "reachable s \<Longrightarrow> reachable (run as s)"
  by (induction as arbitrary: s) (simp_all add: reachable_step)

lemma initial_example_page: "initial example_page"
  by (auto simp: initial_def example_page_def conf_data_def)

lemma onContextMenu_opens:
  assumes ui: "ui_inv s" and hp: "heap_inv s" and a: "ctxMenu s (ev_target e) = Some a"
  shows "\<exists>s'. onContextMenu e s = Done s' \<and> document s' = [next_node s] \<and> isOpen s'"
proof -
  let ?s0 = "s\<lparr>target_var := Some (ev_target e)\<rparr>"
  let ?s1 = "closeContextMenu ?s0"
  from ui have ui0: "ui_inv ?s0" by (simp add: ui_inv_def)
  from close_document [OF ui0] have doc1: "document ?s1 = []" .
  have st: "same_store s ?s1" by (simp add: same_store_def closeContextMenu_def)
  from heap_inv_same_store [OF st hp] have hp1: "heap_inv ?s1" .
  from st a have a1: "ctxMenu ?s1 (ev_target e) = Some a" by (simp add: same_store_def)
  from createContextMenu_ok [OF hp1 a1]
  obtain s2 where cr: "createContextMenu (ev_target e) ?s1 = Inr (next_node ?s1, s2)" by blast
  from createContextMenu_ui [OF cr] doc1 have "document s2 = []" by simp
  moreover have "next_node ?s1 = next_node s" by (simp add: closeContextMenu_def)
  ultimately show ?thesis using a1 cr by (simp add: onContextMenu_def Let_def)
qed

lemma onContextMenu_unattached:
  assumes ui: "ui_inv s" and a: "ctxMenu s (ev_target e) = None"
  shows "\<exists>s'. onContextMenu e s = Done s' \<and> document s' = [] \<and> \<not> isOpen s'"
proof -
  let ?s0 = "s\<lparr>target_var := Some (ev_target e)\<rparr>"
  let ?s1 = "closeContextMenu ?s0"
  from ui have ui0: "ui_inv ?s0" by (simp add: ui_inv_def)
  from close_document [OF ui0] have doc1: "document ?s1 = []" .
  have "ctxMenu ?s1 (ev_target e) = None" using a by (simp add: closeContextMenu_def)
  moreover have "\<not> isOpen ?s1" by (simp add: closeContextMenu_def)
  ultimately show ?thesis using doc1 by (simp add: onContextMenu_def Let_def)
qed

subsection \<open>The fields of a normalized item\<close>

lemma defaults_copy: "extend_props [] itemDefaults = itemDefaults"
  by (simp add: extend_props_def itemDefaults_def get_prop_def)

lemma normalize_item_falsy:
  "\<not> truthy v \<Longrightarrow> normalize_item h k v =
     [(''type'', VStr ''item''), (''enabled'', VBool True), (''label'', VStr k),
      (''onSelect'', VFun ItemNoop), (''icon'', VStr []), (''title'', VStr [])]"
  by (simp add: normalize_item_def defaults_copy)
     (simp add: extend_props_def itemDefaults_def get_prop_def)

lemma normalize_item_keys:
  "{''type'', ''enabled'', ''label'', ''onSelect'', ''icon'', ''title''}
     \<subseteq> fst ` set (normalize_item h k v)"
  by (simp add: normalize_item_def defaults_copy extend_props_keys Let_def)
     (simp add: itemDefaults_def)

lemma get_itemDefaults:
  "get_prop itemDefaults ''enabled'' = VBool True"
  "get_prop itemDefaults ''label'' = VStr []"
  "get_prop itemDefaults ''onSelect'' = VFun ItemNoop"
  "get_prop itemDefaults ''title'' = VStr []"
  by (simp_all add: itemDefaults_def get_prop_def)

lemma normalize_item_fields:
  defines "record_entry h v \<equiv> truthy v \<and> \<not> isFunction h v"
  shows "get_prop (normalize_item h k v) ''enabled'' =
           (if record_entry h v \<and> hasOwnProperty (own_props h v) ''enabled''
            then get_prop (own_props h v) ''enabled'' else VBool True)"
    and "get_prop (normalize_item h k v) ''label'' =
           (if \<not> record_entry h v then VStr k
            else if hasOwnProperty (own_props h v) ''label''
            then get_prop (own_props h v) ''label'' else VStr [])"
    and "get_prop (normalize_item h k v) ''onSelect'' =
           (if \<not> truthy v then VFun ItemNoop
            else if isFunction h v then v
            else if hasOwnProperty (own_props h v) ''onSelect''
            then get_prop (own_props h v) ''onSelect'' else VFun ItemNoop)"
    and "get_prop (normalize_item h k v) ''title'' =
           (if record_entry h v \<and> hasOwnProperty (own_props h v) ''title''
            then get_prop (own_props h v) ''title'' else VStr [])"
  unfolding record_entry_def
  by (simp_all add: normalize_item_def defaults_copy extend_props_get hasOwnProperty_keys
        get_itemDefaults Let_def)
     (simp_all add: get_prop_def)

subsection \<open>What the trigger handler and the timer callback write\<close>

lemma onContextMenu_effect:
  assumes "onContextMenu e s = Done s'" and "ctxMenu s (ev_target e) = Some a"
  shows "timers s' = timers s @ [(e, next_node s)] \<and> target_var s' = Some (ev_target e) \<and>
         same_store s s' \<and> layout s' = layout s \<and> menu_layout s' = menu_layout s \<and>
         clientWidth s' = clientWidth s \<and> clientHeight s' = clientHeight s \<and>
         nodes s' (next_node s) \<noteq> None"
  using assms
  by (auto simp: onContextMenu_def closeContextMenu_def createContextMenu_def Let_def
        same_store_def split: option.splits sum.splits)

lemma make_config_fields:
  "cfg_position (make_config m opts) = (case opt_position opts of None \<Rightarrow> ''bottom'' | Some p \<Rightarrow> p)"
  "cfg_horizontalOffset (make_config m opts) =
     (case opt_horizontalOffset opts of None \<Rightarrow> 0 | Some v \<Rightarrow> v)"
  "cfg_verticalOffset (make_config m opts) =
     (case opt_verticalOffset opts of None \<Rightarrow> 0 | Some v \<Rightarrow> v)"
  by (simp_all add: make_config_def extend_config_def conf_def split: option.splits)

lemma timer_callback_places:
  assumes "target_var s = Some tgt" and "ctxMenu s tgt = Some a" and "configs s a = Some c"
    and "nodes s menu \<noteq> None"
  shows "\<exists>s'. timer_callback e menu s = Done s' \<and>
           style_position s' menu =
             Some (Some (fst (menu_position e c (layout s tgt) (menu_layout s menu)
                                (clientWidth s) (clientHeight s))),
                   Some (snd (menu_position e c (layout s tgt) (menu_layout s menu)
                                (clientWidth s) (clientHeight s))))"
  using assms
  by (auto simp: timer_callback_def positionContextMenu_def style_position_def Let_def)

section \<open>The lifecycle\<close>

text \<open>
  C3. In every reachable state at most one menu container is in the document. Handling a
  trigger event on an element that has a menu closes the open menu first and never
  throws, and afterwards the document holds exactly one container, the new one
  (\<open>next_node s\<close>, which was not in the document before). On an element without a
  menu the handler only closes.
\<close>

theorem at_most_one_menu:
  assumes "reachable s"
  shows "length (document s) \<le> 1 \<and>
         (\<forall>e. ctxMenu s (ev_target e) \<noteq> None \<longrightarrow>
            (\<exists>s'. onContextMenu e s = Done s' \<and> document s' = [next_node s] \<and>
                  next_node s \<notin> set (document s) \<and> isOpen s')) \<and>
         (\<forall>e. ctxMenu s (ev_target e) = None \<longrightarrow>
            (\<exists>s'. onContextMenu e s = Done s' \<and> document s' = [] \<and> \<not> isOpen s'))"
proof -
  from assms have ui: "ui_inv s" by (rule reachable_ui_inv)
  from assms have hp: "heap_inv s" by (rule reachable_heap_inv)
  from ui have len: "length (document s) \<le> 1" by (simp add: ui_inv_def)
  from ui have new: "next_node s \<notin> set (document s)"
    by (auto simp: ui_inv_def list_all_iff)
  from onContextMenu_opens [OF ui hp] onContextMenu_unattached [OF ui] len new
  show ?thesis by (metis not_None_eq)
qed

theorem at_most_one_menu_witness:
  "reachable (run [Attach (SelElement 10) 1 no_options, Trigger example_click, Tick] example_page) \<and>
   document (run [Attach (SelElement 10) 1 no_options, Trigger example_click, Tick] example_page) = [0] \<and>
   document (state_of (onContextMenu example_click
     (run [Attach (SelElement 10) 1 no_options, Trigger example_click, Tick] example_page))) = [3]"
proof -
  let ?s = "run [Attach (SelElement 10) 1 no_options, Trigger example_click, Tick] example_page"
  have r: "reachable ?s"
    by (intro reachable_run reachable_initial initial_example_page)
  have a: "ctxMenu ?s (ev_target example_click) \<noteq> None" by code_simp
  have n: "next_node ?s = 3" by code_simp
  have d: "document ?s = [0]" by code_simp
  from at_most_one_menu [OF r] a
  obtain s' where "onContextMenu example_click ?s = Done s'" "document s' = [next_node ?s]"
    by blast
  with r n d show ?thesis by simp
qed

text \<open>
  C10, as stated, fails in its first half. On the example page a menu is attached to
  element 10 and opened, \<open>close()\<close> is called before the timer has run, and the
  timer callback then runs: lines 235-237 register the three listeners on
  \<open>window\<close> although the menu is gone. The state reached is Closed
  (\<open>isOpen\<close> is false), and \<open>close()\<close> in it is not a no-op: lines 415-417
  remove the listeners.
\<close>

theorem close_noop_counterexample:
  "reachable (run [Attach (SelElement 10) 1 no_options, Trigger example_click, Close, Tick]
                example_page) \<and>
   isOpen (run [Attach (SelElement 10) 1 no_options, Trigger example_click, Close, Tick]
             example_page) = False \<and>
   close (run [Attach (SelElement 10) 1 no_options, Trigger example_click, Close, Tick]
            example_page) \<noteq>
     run [Attach (SelElement 10) 1 no_options, Trigger example_click, Close, Tick] example_page"
proof -
  define s where
    "s = run [Attach (SelElement 10) 1 no_options, Trigger example_click, Close, Tick] example_page"
  have r: "reachable s"
    unfolding s_def by (intro reachable_run reachable_initial initial_example_page)
  have o: "isOpen s = False" unfolding s_def by code_simp
  have w: "''click'' \<in> window_listeners s" unfolding s_def by code_simp
  have "''click'' \<notin> window_listeners (close s)"
    by (simp add: close_def closeContextMenu_def)
  with w have "close s \<noteq> s" by auto
  with r o show ?thesis unfolding s_def by blast
qed

text \<open>
  C10, amended. \<open>close()\<close> never throws and leaves \<open>isOpen\<close> false, after one
  call and after two, in every state. In a reachable state it empties the document and
  a second call in a row changes nothing. A call in a Closed reachable state changes
  nothing but the listeners on \<open>window\<close>, which it removes; it is a no-op exactly
  when none is registered.
\<close>

theorem close_idempotent:
  "\<not> thrown (perform Close s) \<and> \<not> isOpen (close s) \<and> \<not> isOpen (close (close s)) \<and>
   (reachable s \<longrightarrow>
      document (close s) = [] \<and> close (close s) = close s \<and>
      (\<not> isOpen s \<longrightarrow> close s = s\<lparr>window_listeners := {}\<rparr>) \<and>
      (\<not> isOpen s \<longrightarrow> (close s = s) = (window_listeners s = {})))"
proof -
  have "document (close s) = [] \<and> close (close s) = close s \<and>
      (\<not> isOpen s \<longrightarrow> close s = s\<lparr>window_listeners := {}\<rparr>) \<and>
      (\<not> isOpen s \<longrightarrow> (close s = s) = (window_listeners s = {}))" if r: "reachable s"
  proof -
    from r have ui: "ui_inv s" by (rule reachable_ui_inv)
    then have sw: "sweep 0 (document s) = []" by (simp add: ui_inv_def sweep_short)
    have sw0: "sweep 0 [] = []" by (simp add: sweep_short)
    from ui have wl: "window_listeners s - {''click'', ''resize'', ''scroll''} = {}"
      by (auto simp: ui_inv_def)
    from ui have cl: "\<not> isOpen s \<Longrightarrow> document s = []" by (simp add: ui_inv_def)
    have a: "document (close s) = []" and b: "close (close s) = close s"
      using sw sw0 wl by (simp_all add: close_def closeContextMenu_def)
    have c: "close s = s\<lparr>window_listeners := {}\<rparr>" if "\<not> isOpen s"
      using sw wl cl [OF that] that by (simp add: close_def closeContextMenu_def)
    have d: "(close s = s) = (window_listeners s = {})" if n: "\<not> isOpen s"
    proof
      from wl have e: "window_listeners (close s) = {}"
        by (simp add: close_def closeContextMenu_def)
      assume "close s = s"
      with e show "window_listeners s = {}" by simp
    next
      assume "window_listeners s = {}"
      with c [OF n] show "close s = s" by simp
    qed
    from a b c d show ?thesis by blast
  qed
  moreover have "\<not> thrown (perform Close s) \<and> \<not> isOpen (close s) \<and> \<not> isOpen (close (close s))"
    by (simp add: close_def closeContextMenu_def)
  ultimately show ?thesis by blast
qed

theorem close_idempotent_witness:
  "reachable (run [Attach (SelElement 10) 1 no_options, Trigger example_click, Tick, Close]
                example_page) \<and>
   isOpen (run [Attach (SelElement 10) 1 no_options, Trigger example_click, Tick, Close]
             example_page) = False \<and>
   window_listeners (run [Attach (SelElement 10) 1 no_options, Trigger example_click, Tick, Close]
                       example_page) = {} \<and>
   close (run [Attach (SelElement 10) 1 no_options, Trigger example_click, Tick, Close]
            example_page) =
     run [Attach (SelElement 10) 1 no_options, Trigger example_click, Tick, Close] example_page \<and>
   close (close (run [Attach (SelElement 10) 1 no_options, Trigger example_click, Tick, Close]
                   example_page)) =
     close (run [Attach (SelElement 10) 1 no_options, Trigger example_click, Tick, Close]
              example_page)"
proof -
  define s where
    "s = run [Attach (SelElement 10) 1 no_options, Trigger example_click, Tick, Close] example_page"
  have r: "reachable s"
    unfolding s_def by (intro reachable_run reachable_initial initial_example_page)
  have o: "isOpen s = False" unfolding s_def by code_simp
  have w: "window_listeners s = {}" unfolding s_def by code_simp
  from close_idempotent [of s] r o w
  have "close s = s" and "close (close s) = close s"
    by blast+
  with r o w show ?thesis unfolding s_def by blast
qed

section \<open>Normalization\<close>

text \<open>
  C6, as stated, fails. Normalizing the example page's menu
  \<open>{Open: (a record), Sep: null}\<close> stores under \<open>Sep\<close> an item whose
  \<open>enabled\<close> is \<open>true\<close>, not \<open>false\<close>.
\<close>

theorem falsy_entry_counterexample:
  "member (fst (normalizeMenu 3 (objs example_page, next_addr example_page)))
     (get_prop (props_of (fst (normalizeMenu 3 (objs example_page, next_addr example_page))) 3)
        ''Sep'') ''enabled'' = VBool True"
  by code_simp

text \<open>
  C6, amended. For every menu (an object allocated before the call, with distinct keys)
  and every entry whose value is falsy, normalization replaces the entry with a
  fully-populated item that is enabled: \<open>type = "item"\<close>, \<open>enabled = true\<close>,
  \<open>label\<close> the entry's key, \<open>onSelect\<close> the no-op function of the defaults,
  \<open>icon\<close> and \<open>title\<close> empty. The menu builder makes of it an enabled row
  showing the key, with a click listener whose \<open>onSelect\<close> is that no-op.
\<close>

theorem falsy_entry_normalized:
  assumes "distinct (map fst (props_of h menu))" and "menu < n"
    and "k \<in> fst ` set (props_of h menu)"
    and "\<not> truthy (get_prop (props_of h menu) k)"
  shows "\<exists>i. get_prop (props_of (fst (normalizeMenu menu (h, n))) menu) k = VObj i \<and>
           fst (normalizeMenu menu (h, n)) i =
             Some [(''type'', VStr ''item''), (''enabled'', VBool True), (''label'', VStr k),
                   (''onSelect'', VFun ItemNoop), (''icon'', VStr []), (''title'', VStr [])] \<and>
           create_item (fst (normalizeMenu menu (h, n))) r k (VObj i) =
             Inr \<lparr>item_id = r, item_key = k, item_enabled = True,
                  item_className = itemClassName, item_innerHTML = VStr k,
                  item_onSelect = Some (VFun ItemNoop), item_click = True,
                  item_title = None\<rparr>"
proof -
  let ?ks = "map fst (props_of h menu)"
  let ?v = "get_prop (props_of h menu) k"
  have nm: "normalizeMenu menu (h, n) = normalize_loop menu ?ks (h, n)"
    by (simp add: normalizeMenu_def)
  from assms(4) have nobj: "\<And>r. ?v = VObj r \<Longrightarrow> r < snd (h, n) \<and> r \<noteq> menu"
    by auto
  from assms(3) have kin: "k \<in> set ?ks" by simp
  from assms(2) have mn: "menu < snd (h, n)" by simp
  from loop_item [OF assms(1) mn kin] nobj
  obtain i where i: "get_prop (props_of (fst (normalize_loop menu ?ks (h, n))) menu) k = VObj i"
      "fst (normalize_loop menu ?ks (h, n)) i = Some (normalize_item h k ?v)"
    by force
  from i(2) assms(4)
  have item: "fst (normalizeMenu menu (h, n)) i =
             Some [(''type'', VStr ''item''), (''enabled'', VBool True), (''label'', VStr k),
                   (''onSelect'', VFun ItemNoop), (''icon'', VStr []), (''title'', VStr [])]"
    by (simp add: nm normalize_item_falsy)
  have "create_item (fst (normalizeMenu menu (h, n))) r k (VObj i) =
             Inr \<lparr>item_id = r, item_key = k, item_enabled = True,
                  item_className = itemClassName, item_innerHTML = VStr k,
                  item_onSelect = Some (VFun ItemNoop), item_click = True,
                  item_title = None\<rparr>"
    by (simp add: create_item_def member_def props_of_def item get_prop_def isFunction_def)
  with i(1) item show ?thesis by (auto simp: nm)
qed

theorem falsy_entry_normalized_witness:
  "\<exists>i. get_prop (props_of (fst (normalizeMenu 3 (objs example_page, 4))) 3) ''Sep'' = VObj i \<and>
       fst (normalizeMenu 3 (objs example_page, 4)) i =
         Some [(''type'', VStr ''item''), (''enabled'', VBool True), (''label'', VStr ''Sep''),
               (''onSelect'', VFun ItemNoop), (''icon'', VStr []), (''title'', VStr [])]"
proof -
  have 1: "distinct (map fst (props_of (objs example_page) 3))" by code_simp
  have 2: "(3::nat) < 4" by simp
  have 3: "''Sep'' \<in> fst ` set (props_of (objs example_page) 3)" by code_simp
  have 4: "\<not> truthy (get_prop (props_of (objs example_page) 3) ''Sep'')" by code_simp
  from falsy_entry_normalized [OF 1 2 3 4] show ?thesis by blast
qed

text \<open>
  C7, as stated, fails. The example page's menu has the entry
  \<open>Open: {title: "Open a file"}\<close>, a record without \<open>label\<close>; its normalized
  \<open>label\<close> is the empty string of the defaults, not the key \<open>"Open"\<close>.
\<close>

theorem normalized_entry_counterexample:
  "member (fst (normalizeMenu 3 (objs example_page, next_addr example_page)))
     (get_prop (props_of (fst (normalizeMenu 3 (objs example_page, next_addr example_page))) 3)
        ''Open'') ''label'' = VStr []"
  by code_simp

text \<open>
  C7, amended. For every menu (allocated before the call, with distinct keys, no entry
  being the menu itself or a dangling reference) every entry is replaced by a reference
  to a fresh item that has all six keys of the defaults. A field the input does not give
  defaults to \<open>enabled = true\<close>, \<open>onSelect\<close> the no-op function and
  \<open>title\<close> the empty string; \<open>label\<close> is the entry's key for a falsy entry and
  for a function entry, and for a record it is the record's \<open>label\<close> if it has one
  and the empty string otherwise (the builder shows the key for an empty label). A
  function entry becomes the item's \<open>onSelect\<close>. Fields a record gives are copied
  as they are; so the label is a string, \<open>enabled\<close> a boolean and \<open>onSelect\<close>
  a function whenever the fields given are.
\<close>

theorem normalized_entry_fields:
  assumes "distinct (map fst (props_of h menu))" and "menu < n"
    and "k \<in> fst ` set (props_of h menu)"
    and "entry = get_prop (props_of h menu) k"
    and "\<And>r. entry = VObj r \<Longrightarrow> r < n \<and> r \<noteq> menu"
    and "given = own_props h entry"
    and "h' = fst (normalizeMenu menu (h, n))"
  shows "\<exists>i item. get_prop (props_of h' menu) k = VObj i \<and> h' i = Some item \<and>
           {''type'', ''enabled'', ''label'', ''onSelect'', ''icon'', ''title''}
             \<subseteq> fst ` set item \<and>
           get_prop item ''enabled'' =
             (if truthy entry \<and> \<not> isFunction h entry \<and> hasOwnProperty given ''enabled''
              then get_prop given ''enabled'' else VBool True) \<and>
           get_prop item ''label'' =
             (if \<not> truthy entry \<or> isFunction h entry then VStr k
              else if hasOwnProperty given ''label'' then get_prop given ''label''
              else VStr []) \<and>
           get_prop item ''onSelect'' =
             (if \<not> truthy entry then VFun ItemNoop
              else if isFunction h entry then entry
              else if hasOwnProperty given ''onSelect'' then get_prop given ''onSelect''
              else VFun ItemNoop) \<and>
           get_prop item ''title'' =
             (if truthy entry \<and> \<not> isFunction h entry \<and> hasOwnProperty given ''title''
              then get_prop given ''title'' else VStr []) \<and>
           ((hasOwnProperty given ''label'' \<longrightarrow> (\<exists>t. get_prop given ''label'' = VStr t)) \<and>
            (hasOwnProperty given ''enabled'' \<longrightarrow> (\<exists>b. get_prop given ''enabled'' = VBool b)) \<and>
            (hasOwnProperty given ''onSelect'' \<longrightarrow> (\<exists>f. get_prop given ''onSelect'' = VFun f)) \<and>
            (isFunction h entry \<longrightarrow> (\<exists>f. entry = VFun f))
            \<longrightarrow> (\<exists>t. get_prop item ''label'' = VStr t) \<and>
                (\<exists>b. get_prop item ''enabled'' = VBool b) \<and>
                (\<exists>f. get_prop item ''onSelect'' = VFun f))"
proof -
  let ?ks = "map fst (props_of h menu)"
  have nm: "h' = fst (normalize_loop menu ?ks (h, n))"
    by (simp add: assms(7) normalizeMenu_def)
  from assms(4,5) have nobj:
    "\<And>r. get_prop (props_of (fst (h, n)) menu) k = VObj r \<Longrightarrow> r < snd (h, n) \<and> r \<noteq> menu"
    by auto
  from assms(3) have kin: "k \<in> set ?ks" by simp
  from assms(2) have mn: "menu < snd (h, n)" by simp
  from loop_item [OF assms(1) mn kin nobj]
  obtain i where i: "get_prop (props_of h' menu) k = VObj i"
      "h' i = Some (normalize_item h k entry)"
    by (auto simp: nm assms(4))
  let ?item = "normalize_item h k entry"
  note f = normalize_item_fields [of h k entry, folded assms(6)]
  have "{''type'', ''enabled'', ''label'', ''onSelect'', ''icon'', ''title''} \<subseteq> fst ` set ?item"
    by (rule normalize_item_keys)
  moreover have "get_prop ?item ''enabled'' =
             (if truthy entry \<and> \<not> isFunction h entry \<and> hasOwnProperty given ''enabled''
              then get_prop given ''enabled'' else VBool True)"
    by (simp add: f)
  moreover have "get_prop ?item ''label'' =
             (if \<not> truthy entry \<or> isFunction h entry then VStr k
              else if hasOwnProperty given ''label'' then get_prop given ''label''
              else VStr [])"
    by (simp add: f)
  moreover have "get_prop ?item ''onSelect'' =
             (if \<not> truthy entry then VFun ItemNoop
              else if isFunction h entry then entry
              else if hasOwnProperty given ''onSelect'' then get_prop given ''onSelect''
              else VFun ItemNoop)"
    by (simp add: f)
  moreover have "get_prop ?item ''title'' =
             (if truthy entry \<and> \<not> isFunction h entry \<and> hasOwnProperty given ''title''
              then get_prop given ''title'' else VStr [])"
    by (simp add: f)
  moreover have "(hasOwnProperty given ''label'' \<longrightarrow> (\<exists>t. get_prop given ''label'' = VStr t)) \<and>
            (hasOwnProperty given ''enabled'' \<longrightarrow> (\<exists>b. get_prop given ''enabled'' = VBool b)) \<and>
            (hasOwnProperty given ''onSelect'' \<longrightarrow> (\<exists>f. get_prop given ''onSelect'' = VFun f)) \<and>
            (isFunction h entry \<longrightarrow> (\<exists>f. entry = VFun f))
            \<longrightarrow> (\<exists>t. get_prop ?item ''label'' = VStr t) \<and>
                (\<exists>b. get_prop ?item ''enabled'' = VBool b) \<and>
                (\<exists>f. get_prop ?item ''onSelect'' = VFun f)"
    by (auto simp: f)
  ultimately show ?thesis using i by blast
qed

theorem normalized_entry_fields_witness:
  "\<exists>i item. get_prop (props_of (fst (normalizeMenu 3 (objs example_page, 4))) 3) ''Open'' = VObj i \<and>
      fst (normalizeMenu 3 (objs example_page, 4)) i = Some item \<and>
      get_prop item ''enabled'' = VBool True \<and> get_prop item ''label'' = VStr [] \<and>
      get_prop item ''onSelect'' = VFun ItemNoop \<and>
      get_prop item ''title'' = VStr ''Open a file''"
proof -
  let ?h = "objs example_page"
  have 1: "distinct (map fst (props_of ?h 3))" by code_simp
  have 2: "(3::nat) < 4" by simp
  have 3: "''Open'' \<in> fst ` set (props_of ?h 3)" by code_simp
  have 4: "VObj 2 = get_prop (props_of ?h 3) ''Open''" by code_simp
  have 5: "\<And>r. VObj 2 = VObj r \<Longrightarrow> r < 4 \<and> r \<noteq> 3" by simp
  have g: "own_props ?h (VObj 2) = [(''title'', VStr ''Open a file'')]" by code_simp
  have fn: "\<not> isFunction ?h (VObj 2)" by code_simp
  from normalized_entry_fields [OF 1 2 3 4 5 g [symmetric] refl]
  obtain i item where
    "get_prop (props_of (fst (normalizeMenu 3 (?h, 4))) 3) ''Open'' = VObj i"
    "fst (normalizeMenu 3 (?h, 4)) i = Some item"
    "get_prop item ''enabled'' =
       (if truthy (VObj 2) \<and> \<not> isFunction ?h (VObj 2) \<and>
           hasOwnProperty [(''title'', VStr ''Open a file'')] ''enabled''
        then get_prop [(''title'', VStr ''Open a file'')] ''enabled'' else VBool True)"
    "get_prop item ''label'' =
       (if \<not> truthy (VObj 2) \<or> isFunction ?h (VObj 2) then VStr ''Open''
        else if hasOwnProperty [(''title'', VStr ''Open a file'')] ''label''
        then get_prop [(''title'', VStr ''Open a file'')] ''label'' else VStr [])"
    "get_prop item ''onSelect'' =
       (if \<not> truthy (VObj 2) then VFun ItemNoop
        else if isFunction ?h (VObj 2) then VObj 2
        else if hasOwnProperty [(''title'', VStr ''Open a file'')] ''onSelect''
        then get_prop [(''title'', VStr ''Open a file'')] ''onSelect'' else VFun ItemNoop)"
    "get_prop item ''title'' =
       (if truthy (VObj 2) \<and> \<not> isFunction ?h (VObj 2) \<and>
           hasOwnProperty [(''title'', VStr ''Open a file'')] ''title''
        then get_prop [(''title'', VStr ''Open a file'')] ''title'' else VStr [])"
    by blast
  with fn show ?thesis
    by (intro exI [of _ i] exI [of _ item]) (simp add: hasOwnProperty_def get_prop_def)
qed

section \<open>\<open>display\<close> with an element\<close>

text \<open>
  C9, as stated, fails in its second half. \<open>display(element, menu)\<close> without
  options on the example page synthesizes the event with \<open>clientX = 100\<close>,
  \<open>clientY = 50\<close>, the top-left corner of the element's box; the timer callback then
  places the menu at \<open>(100, 70)\<close>, below the element, not at the synthesized point
  \<open>(100, 50)\<close>: \<open>conf.position\<close> is \<open>"bottom"\<close>.
\<close>

theorem display_element_counterexample:
  "timers (state_of (display (ArgElement 10) 1 no_options example_page)) =
     [(\<lparr>ev_target = 10, clientX = 100, clientY = 50\<rparr>, 0)] \<and>
   style_position (run [Display (ArgElement 10) 1 no_options, Tick] example_page) 0 =
     Some (Some 100, Some 70)"
  by code_simp

text \<open>
  C9, amended. In every reachable state \<open>display(element, menu, options)\<close> does not
  throw and schedules the timer callback with a synthesized event whose \<open>clientX\<close>
  and \<open>clientY\<close> are the left and top of the element's bounding box. The
  configuration it stores has the position of the options and \<open>"bottom"\<close> if they
  give none. The callback writes \<open>menu_position\<close> of that event and configuration
  into the menu's style: without a position in the options the position before the
  off-screen checks is below the element, \<open>(left + hOffset, bottom + vOffset)\<close>;
  it is the synthesized point plus the offsets when the options give a position that is
  none of \<open>bottom\<close>, \<open>top\<close>, \<open>right\<close>, \<open>left\<close>.
\<close>

theorem display_element_placement:
  fixes s :: state and el :: elem and menu :: addr and opts :: options
  assumes "reachable s"
  defines "b \<equiv> layout s el"
  defines "evt \<equiv> \<lparr>ev_target = el, clientX = box_left b, clientY = box_top b\<rparr>"
  defines "mb \<equiv> menu_layout s (next_node s)"
  defines "ho \<equiv> (case opt_horizontalOffset opts of None \<Rightarrow> 0 | Some v \<Rightarrow> v)"
  defines "vo \<equiv> (case opt_verticalOffset opts of None \<Rightarrow> 0 | Some v \<Rightarrow> v)"
  shows "\<exists>s' s'' a c.
           display (ArgElement el) menu opts s = Done s' \<and>
           timers s' = timers s @ [(evt, next_node s)] \<and>
           ctxMenu s' el = Some a \<and> configs s' a = Some c \<and>
           cfg_position c = (case opt_position opts of None \<Rightarrow> ''bottom'' | Some p \<Rightarrow> p) \<and>
           cfg_horizontalOffset c = ho \<and> cfg_verticalOffset c = vo \<and>
           timer_callback evt (next_node s) s' = Done s'' \<and>
           style_position s'' (next_node s) =
             Some (Some (fst (menu_position evt c b mb (clientWidth s) (clientHeight s))),
                   Some (snd (menu_position evt c b mb (clientWidth s) (clientHeight s)))) \<and>
           (opt_position opts = None \<longrightarrow>
              anchor_position evt c b mb = (box_left b + ho, box_bottom b + vo)) \<and>
           (\<forall>p. opt_position opts = Some p \<and> p \<notin> {''bottom'', ''top'', ''right'', ''left''} \<longrightarrow>
              anchor_position evt c b mb = (box_left b + ho, box_top b + vo))"
proof -
  from assms(1) have ui: "ui_inv s" by (rule reachable_ui_inv)
  from assms(1) have hp: "heap_inv s" by (rule reachable_heap_inv)
  let ?hn0 = "copy_object menu (objs s, next_addr s)"
  let ?hn1 = "normalizeMenu (next_addr s) ?hn0"
  let ?hn2 = "copy_object (next_addr s) ?hn1"
  let ?c = "make_config (snd ?hn1) opts"
  let ?s1 = "s\<lparr>objs := fst ?hn2, configs := (configs s)(snd ?hn2 \<mapsto> ?c),
               next_addr := Suc (snd ?hn2)\<rparr>"
  let ?s2 = "?s1\<lparr>ctxMenu := (ctxMenu ?s1)(el \<mapsto> snd ?hn2)\<rparr>"
  have disp: "display (ArgElement el) menu opts s = onContextMenu evt ?s2"
    by (simp add: display_def Let_def evt_def b_def)
  from display_store [OF hp, of menu opts]
  have i1: "heap_inv ?s1" and c1: "configs ?s1 (snd ?hn2) \<noteq> None" by simp_all
  have hp2: "heap_inv ?s2"
    by (rule heap_inv_point [OF i1 c1]) simp_all
  from ui have ui2: "ui_inv ?s2" by (simp add: ui_inv_def)
  have a2: "ctxMenu ?s2 (ev_target evt) = Some (snd ?hn2)" by (simp add: evt_def)
  from onContextMenu_opens [OF ui2 hp2 a2]
  obtain s' where s': "onContextMenu evt ?s2 = Done s'" by blast
  from onContextMenu_effect [OF s' a2]
  have t: "timers s' = timers s @ [(evt, next_node s)]"
    and tv: "target_var s' = Some el"
    and st: "same_store ?s2 s'"
    and ly: "layout s' = layout s" "menu_layout s' = menu_layout s"
            "clientWidth s' = clientWidth s" "clientHeight s' = clientHeight s"
    and nd: "nodes s' (next_node s) \<noteq> None"
    by (simp_all add: evt_def)
  from st have cm: "ctxMenu s' el = Some (snd ?hn2)" and cf: "configs s' (snd ?hn2) = Some ?c"
    by (simp_all add: same_store_def)
  from timer_callback_places [OF tv cm cf nd, of evt]
  obtain s'' where s'': "timer_callback evt (next_node s) s' = Done s''"
    "style_position s'' (next_node s) =
       Some (Some (fst (menu_position evt ?c b mb (clientWidth s) (clientHeight s))),
             Some (snd (menu_position evt ?c b mb (clientWidth s) (clientHeight s))))"
    by (auto simp: ly b_def mb_def)
  have p: "cfg_position ?c = (case opt_position opts of None \<Rightarrow> ''bottom'' | Some p \<Rightarrow> p)"
    and h: "cfg_horizontalOffset ?c = ho" and v: "cfg_verticalOffset ?c = vo"
    by (simp_all add: make_config_fields ho_def vo_def)
  have bottom: "opt_position opts = None \<longrightarrow>
      anchor_position evt ?c b mb = (box_left b + ho, box_bottom b + vo)"
    by (simp add: anchor_position_def p h v)
  have pointer: "\<forall>p. opt_position opts = Some p \<and> p \<notin> {''bottom'', ''top'', ''right'', ''left''} \<longrightarrow>
      anchor_position evt ?c b mb = (box_left b + ho, box_top b + vo)"
    by (auto simp: anchor_position_def p h v evt_def Let_def)
  from disp s' t cm cf p h v s'' bottom pointer show ?thesis
    by (intro exI [of _ s'] exI [of _ s''] exI [of _ "snd ?hn2"] exI [of _ ?c]) simp
qed

theorem display_element_placement_witness:
  "reachable example_page \<and>
   (\<exists>s' s''. display (ArgElement 10) 1 no_options example_page = Done s' \<and>
      timers s' = [(\<lparr>ev_target = 10, clientX = 100, clientY = 50\<rparr>, 0)] \<and>
      timer_callback \<lparr>ev_target = 10, clientX = 100, clientY = 50\<rparr> 0 s' = Done s'' \<and>
      style_position s'' 0 = Some (Some 100, Some 70))"
proof -
  have r: "reachable example_page"
    by (rule reachable_initial) (rule initial_example_page)
  have l: "layout example_page 10 = \<lparr>box_left = 100, box_top = 50, box_width = 80, box_height = 20\<rparr>"
    and m: "menu_layout example_page 0 = \<lparr>box_left = 0, box_top = 0, box_width = 60, box_height = 40\<rparr>"
    and n: "next_node example_page = 0" and t: "timers example_page = []"
    and w: "clientWidth example_page = 1000" "clientHeight example_page = 800"
    by (simp_all add: example_page_def)
  from display_element_placement [OF r, of 10 1 no_options]
  obtain s' s'' a c where
    "display (ArgElement 10) 1 no_options example_page = Done s'"
    "timers s' = [(\<lparr>ev_target = 10, clientX = 100, clientY = 50\<rparr>, 0)]"
    "timer_callback \<lparr>ev_target = 10, clientX = 100, clientY = 50\<rparr> 0 s' = Done s''"
    "style_position s'' 0 =
       Some (Some (fst (menu_position \<lparr>ev_target = 10, clientX = 100, clientY = 50\<rparr> c
                     \<lparr>box_left = 100, box_top = 50, box_width = 80, box_height = 20\<rparr>
                     \<lparr>box_left = 0, box_top = 0, box_width = 60, box_height = 40\<rparr> 1000 800)),
             Some (snd (menu_position \<lparr>ev_target = 10, clientX = 100, clientY = 50\<rparr> c
                     \<lparr>box_left = 100, box_top = 50, box_width = 80, box_height = 20\<rparr>
                     \<lparr>box_left = 0, box_top = 0, box_width = 60, box_height = 40\<rparr> 1000 800)))"
    "anchor_position \<lparr>ev_target = 10, clientX = 100, clientY = 50\<rparr> c
        \<lparr>box_left = 100, box_top = 50, box_width = 80, box_height = 20\<rparr>
        \<lparr>box_left = 0, box_top = 0, box_width = 60, box_height = 40\<rparr> = (100, 70)"
    "cfg_horizontalOffset c = 0" "cfg_verticalOffset c = 0"
    unfolding l m n t w by (auto simp: no_options_def box_bottom_def)
  then show ?thesis using r
    by (auto simp: menu_position_def offscreen_check_def Let_def)
qed

section \<open>Sharing between elements, rows and the caller\<close>

text \<open>
  C1: what the code does. One call of \<open>attach\<close> on the two elements 10 and 11
  stores the same configuration object in both. \<open>Open\<close> is enabled on element 11
  after the call, and disabled on element 11 after \<open>disable(element 10, "Open")\<close>.
  After two calls of \<open>attach\<close> with the same menu object, one per element, the same
  \<open>disable\<close> leaves \<open>Open\<close> enabled on element 11.
\<close>

theorem attach_shares_one_config:
  "ctxMenu (attach (SelNodeList [10, 11]) 1 no_options example_page) 10 =
     ctxMenu (attach (SelNodeList [10, 11]) 1 no_options example_page) 11 \<and>
   enabled_of (attach (SelNodeList [10, 11]) 1 no_options example_page) 11 ''Open'' = VBool True \<and>
   enabled_of (state_of (disable (SelElement 10) ''Open''
      (attach (SelNodeList [10, 11]) 1 no_options example_page))) 11 ''Open'' = VBool False \<and>
   enabled_of (run [Attach (SelElement 10) 1 no_options, Attach (SelElement 11) 1 no_options,
                    Disable (SelElement 10) ''Open''] example_page) 11 ''Open'' = VBool True"
  by code_simp

text \<open>
  C2: what the code does. The menu \<open>{New: f0, Open: f1}\<close> is attached to element 10
  and opened; its rows are the nodes 1 and 2. A click on row 1 calls \<open>f0\<close> once,
  with the target 10, the key \<open>"New"\<close> and the configured data, and closes the menu;
  the third argument is node 2, the last row built, not the row that was clicked.
\<close>

theorem click_passes_last_row:
  "row_ids (run [Attach (SelElement 10) 1 no_options, Trigger example_click, Tick] example_page) 0
     = [1, 2] \<and>
   calls (state_of (click_row 0 1
     (run [Attach (SelElement 10) 1 no_options, Trigger example_click, Tick] example_page))) =
     [\<lparr>call_fn = UserFn 0, call_target = 10, call_key = ''New'', call_item = 2,
       call_data = VObj conf_data\<rparr>] \<and>
   isOpen (state_of (click_row 0 1
     (run [Attach (SelElement 10) 1 no_options, Trigger example_click, Tick] example_page))) = False"
  by code_simp

text \<open>
  C8: what the code does. After \<open>attach(element 10, menu)\<close> the caller's menu
  object at address 1 no longer holds the two functions but references to the item
  objects 4 and 5, which are the items of the element's configuration: after
  \<open>disable(element 10, "Open")\<close> the caller's \<open>menu.Open.enabled\<close> is
  \<open>false\<close>. \<open>display\<close>, which normalizes \<open>extend({}, menu)\<close>, leaves the
  caller's object as it was.
\<close>

theorem attach_normalizes_in_place:
  "props_of (objs example_page) 1 = [(''New'', VFun (UserFn 0)), (''Open'', VFun (UserFn 1))] \<and>
   props_of (objs (attach (SelElement 10) 1 no_options example_page)) 1 =
     [(''New'', VObj 4), (''Open'', VObj 5)] \<and>
   member (objs (run [Attach (SelElement 10) 1 no_options, Disable (SelElement 10) ''Open'']
                   example_page))
     (get_prop (props_of (objs (run [Attach (SelElement 10) 1 no_options,
                                     Disable (SelElement 10) ''Open''] example_page)) 1) ''Open'')
     ''enabled'' = VBool False \<and>
   props_of (objs (state_of (display (ArgElement 10) 1 no_options example_page))) 1 =
     [(''New'', VFun (UserFn 0)), (''Open'', VFun (UserFn 1))]"
  by code_simp

end
